theory Spec2Isabelle
  imports Complex_Main "HOL-Library.Word" "HOL-Library.Log_Nat"
begin

unbundle bit_operations_syntax

section \<open>The LDPC demo decoder (ldpc.c) as HOL functions\<close>

subsection \<open>Arithmetic on C doubles\<close>

text \<open>
  The decoder computes on C \<^verbatim>\<open>double\<close>s with \<^verbatim>\<open>+ - * /\<close>, \<^verbatim>\<open><\<close> and the libm functions
  \<^verbatim>\<open>exp\<close>, \<^verbatim>\<open>log\<close>, \<^verbatim>\<open>tanh\<close>, \<^verbatim>\<open>floor\<close>.  The model takes these operations as a parameter:
  a record of functions on a value type \<open>'a\<close>.  Every function below applies them in
  the order the C code does, so a theorem stated for an arbitrary record holds for
  IEEE 754 arithmetic (with its infinities and NaN) as well as for exact arithmetic
  on the reals, which is the instance \<open>real_ops\<close>.  \<open>d_lit\<close> is the value of a
  literal of the source (\<^verbatim>\<open>1.0\<close>, \<^verbatim>\<open>0.01\<close>, an \<^verbatim>\<open>int\<close> converted to \<^verbatim>\<open>double\<close>).
\<close>

record 'a double_ops =
  d_lit :: "rat \<Rightarrow> 'a"
  d_add :: "'a \<Rightarrow> 'a \<Rightarrow> 'a"
  d_sub :: "'a \<Rightarrow> 'a \<Rightarrow> 'a"
  d_mul :: "'a \<Rightarrow> 'a \<Rightarrow> 'a"
  d_div :: "'a \<Rightarrow> 'a \<Rightarrow> 'a"
  d_less :: "'a \<Rightarrow> 'a \<Rightarrow> bool"
  d_exp :: "'a \<Rightarrow> 'a"
  d_log :: "'a \<Rightarrow> 'a"
  d_tanh :: "'a \<Rightarrow> 'a"
  d_floor :: "'a \<Rightarrow> 'a"

definition real_ops :: "real double_ops" where
  "real_ops =
     \<lparr>d_lit = of_rat, d_add = (+), d_sub = (-), d_mul = (*), d_div = (/),
      d_less = (<), d_exp = exp, d_log = ln, d_tanh = tanh,
      d_floor = (\<lambda>x. of_int \<lfloor>x\<rfloor>)\<rparr>"

subsection \<open>Constants and data\<close>

text \<open>The parity-check matrix \<^verbatim>\<open>matrix[4][6]\<close> and the initial channel values.\<close>

definition matrix_const :: "8 word list list" where
  "matrix_const =
     [[1, 1, 0, 1, 0, 0],
      [0, 1, 1, 0, 1, 0],
      [1, 0, 0, 0, 1, 1],
      [0, 0, 1, 1, 0, 1]]"

definition initial_r :: "rat list" where
  "initial_r = [- (1 / 2), 5 / 2, - 4, 5, - (7 / 2), 5 / 2]"

definition N_ITERATIONS :: int where
  "N_ITERATIONS = 8"

text \<open>
  \<^verbatim>\<open>struct iteration\<close>.  The \<^verbatim>\<open>next\<close> pointer is the position in the list
  \<open>first_iteration\<close> of the state; the two-dimensional arrays are lists of rows,
  indexed \<^verbatim>\<open>[check][variable]\<close>.
\<close>

record 'a iteration =
  message_v_to_c :: "'a list list"
  l :: "'a list"
  message_c_to_v :: "'a list list"
  codeword :: "8 word list"
  parity :: "8 word list"

text \<open>\<^verbatim>\<open>struct state\<close>.\<close>

record 'a state =
  cursor :: int
  page :: int
  iterations :: int
  n_v :: nat
  n_c :: nat
  channel :: "'a list"
  channel_llr :: "'a list"
  matrix :: "8 word list list"
  first_iteration :: "'a iteration list"

text \<open>\<^verbatim>\<open>a[c][v] = x\<close> on an array of rows.\<close>

definition upd2 :: "'b list list \<Rightarrow> nat \<Rightarrow> nat \<Rightarrow> 'b \<Rightarrow> 'b list list" where
  "upd2 a c v x = a[c := (a ! c)[v := x]]"

subsection \<open>Helper functions\<close>

definition l_to_p :: "'a double_ops \<Rightarrow> 'a \<Rightarrow> 'a" where
  "l_to_p A x = d_div A (d_exp A x) (d_add A (d_lit A 1) (d_exp A x))"

definition p_to_l :: "'a double_ops \<Rightarrow> 'a \<Rightarrow> 'a" where
  "p_to_l A p = d_log A (d_div A p (d_sub A (d_lit A 1) p))"

subsection \<open>Allocation\<close>

text \<open>
  \<^verbatim>\<open>malloc\<close> returns memory with indeterminate contents.  The contents are a parameter:
  \<open>g_double G b i\<close> is what cell \<open>i\<close> of the \<open>b\<close>-th block of doubles holds before
  the program writes it, \<open>g_byte\<close> likewise for blocks of bytes.
\<close>

record 'a garbage =
  g_double :: "nat \<Rightarrow> nat \<Rightarrow> 'a"
  g_byte :: "nat \<Rightarrow> nat \<Rightarrow> 8 word"

definition malloc_double :: "'a garbage \<Rightarrow> nat \<Rightarrow> nat \<Rightarrow> 'a list" where
  "malloc_double G b n = map (g_double G b) [0..<n]"

definition malloc_byte :: "'a garbage \<Rightarrow> nat \<Rightarrow> nat \<Rightarrow> 8 word list" where
  "malloc_byte G b n = map (g_byte G b) [0..<n]"

definition add_iteration :: "'a garbage \<Rightarrow> 'a state \<Rightarrow> 'a state" where
  "add_iteration G s =
     (let new_i =
        \<lparr>message_v_to_c = map (\<lambda>i. malloc_double G (2 * i + 1) (n_v s)) [0..<n_c s],
         l = malloc_double G 0 (n_v s),
         message_c_to_v = map (\<lambda>i. malloc_double G (2 * i + 2) (n_v s)) [0..<n_c s],
         codeword = malloc_byte G 0 (n_v s),
         parity = malloc_byte G 1 (n_c s)\<rparr>
      in s\<lparr>first_iteration := new_i # first_iteration s\<rparr>)"

text \<open>
  \<open>state_new A n_i G GI\<close>: \<open>G\<close> is the garbage in the state's own blocks, \<open>GI k\<close> the
  garbage in the blocks of the \<open>k\<close>-th call of \<open>add_iteration\<close>.
\<close>

definition state_new :: "'a double_ops \<Rightarrow> int \<Rightarrow> 'a garbage \<Rightarrow> (nat \<Rightarrow> 'a garbage) \<Rightarrow> 'a state" where
  "state_new A n_i G GI =
     (let nv = length (matrix_const ! 0);
          nc = length matrix_const;
          s0 = \<lparr>cursor = 0, page = 0, iterations = n_i, n_v = nv, n_c = nc,
                channel = malloc_double G 0 nv,
                channel_llr = malloc_double G 1 nv,
                matrix = map (\<lambda>i. malloc_byte G i nv) [0..<nc],
                first_iteration = []\<rparr>;
          s1 = fold (\<lambda>i s.
                 if i < length initial_r
                 then s\<lparr>channel := (channel s)[i := l_to_p A (d_lit A (initial_r ! i))]\<rparr>
                 else s\<lparr>channel := (channel s)[i := d_lit A (1 / 2)]\<rparr>) [0..<nv] s0;
          s2 = fold (\<lambda>i s. fold (\<lambda>j s.
                 s\<lparr>matrix := upd2 (matrix s) j i (matrix_const ! j ! i)\<rparr>) [0..<nc] s) [0..<nv] s1
      in fold (\<lambda>i s. add_iteration (GI i) s) [0..<nat n_i] s2)"

subsection \<open>The two message rules\<close>

text \<open>
  In the source the array \<^verbatim>\<open>message_c_to_v\<close> holds the values the tanh rule reads (what
  the specification calls the variable messages), and \<^verbatim>\<open>message_v_to_c\<close> holds the
  values the tanh rule produces (the check messages).
\<close>

definition calc_message_v_to_c :: "'a double_ops \<Rightarrow> 'a state \<Rightarrow> 'a iteration \<Rightarrow> nat \<Rightarrow> nat \<Rightarrow> 'a" where
  "calc_message_v_to_c A s it v c =
     (let t = fold (\<lambda>i t.
                if i \<noteq> v \<and> matrix s ! c ! i \<noteq> 0
                then d_mul A t (d_tanh A (d_div A (message_c_to_v it ! c ! i) (d_lit A 2)))
                else t) [0..<n_v s] (d_lit A 1)
      in d_log A (d_div A (d_add A (d_lit A 1) t) (d_sub A (d_lit A 1) t)))"

definition calc_message_c_to_v :: "'a double_ops \<Rightarrow> 'a state \<Rightarrow> 'a iteration \<Rightarrow> nat \<Rightarrow> nat \<Rightarrow> 'a" where
  "calc_message_c_to_v A s it v c =
     fold (\<lambda>i p.
       if i \<noteq> c \<and> matrix s ! i ! v = 1
       then d_add A p (message_v_to_c it ! i ! v)
       else p) [0..<n_c s] (channel_llr s ! v)"

subsection \<open>One pass of the while loop of \<^verbatim>\<open>state_solve\<close>\<close>

text \<open>Lines 303--307: every slot of \<^verbatim>\<open>current->message_v_to_c\<close> is written.\<close>

definition check_pass :: "'a double_ops \<Rightarrow> 'a state \<Rightarrow> 'a iteration \<Rightarrow> 'a iteration" where
  "check_pass A s current =
     fold (\<lambda>c cur. fold (\<lambda>v cur.
       cur\<lparr>message_v_to_c :=
         upd2 (message_v_to_c cur) c v (calc_message_v_to_c A s cur v c)\<rparr>) [0..<n_v s] cur)
       [0..<n_c s] current"

text \<open>Lines 309--311.\<close>

definition clear_parity :: "'a state \<Rightarrow> 'a iteration \<Rightarrow> 'a iteration" where
  "clear_parity s current =
     fold (\<lambda>i cur. cur\<lparr>parity := (parity cur)[i := 0]\<rparr>) [0..<n_c s] current"

text \<open>
  Lines 313--324, the body of the loop over \<open>v\<close>.  The C variable \<^verbatim>\<open>b\<close> is an
  \<^verbatim>\<open>int\<close> holding 0 or 1; it is stored into and xor-ed with \<^verbatim>\<open>uint8_t\<close> cells, so the
  model keeps it as a byte.
\<close>

definition belief_step :: "'a double_ops \<Rightarrow> 'a state \<Rightarrow> nat \<Rightarrow> 'a iteration \<Rightarrow> 'a iteration" where
  "belief_step A s v current =
     (let cur1 = current\<lparr>l := (l current)[v := channel_llr s ! v]\<rparr>;
          cur2 = fold (\<lambda>i cur.
                   if matrix s ! i ! v \<noteq> 0
                   then cur\<lparr>l := (l cur)[v := d_add A (l cur ! v) (message_v_to_c cur ! i ! v)]\<rparr>
                   else cur) [0..<n_c s] cur1;
          b = (if d_less A (l cur2 ! v) (d_lit A 0) then 1 else 0 :: 8 word);
          cur3 = cur2\<lparr>codeword := (codeword cur2)[v := b]\<rparr>
      in fold (\<lambda>i cur.
           if matrix s ! i ! v \<noteq> 0
           then cur\<lparr>parity := (parity cur)[i := parity cur ! i XOR b]\<rparr>
           else cur) [0..<n_c s] cur3)"

definition belief_pass :: "'a double_ops \<Rightarrow> 'a state \<Rightarrow> 'a iteration \<Rightarrow> 'a iteration" where
  "belief_pass A s current = fold (belief_step A s) [0..<n_v s] current"

text \<open>Lines 329--333: every slot of \<^verbatim>\<open>current->next->message_c_to_v\<close> is written.\<close>

definition prepare_next :: "'a double_ops \<Rightarrow> 'a state \<Rightarrow> 'a iteration \<Rightarrow> 'a iteration \<Rightarrow> 'a iteration" where
  "prepare_next A s current nxt =
     fold (\<lambda>c nx. fold (\<lambda>v nx.
       nx\<lparr>message_c_to_v :=
         upd2 (message_c_to_v nx) c v (calc_message_c_to_v A s current v c)\<rparr>) [0..<n_v s] nx)
       [0..<n_c s] nxt"

text \<open>
  Lines 302--336.  \<open>solve_loop A s (current # rest)\<close> is the while loop entered with
  \<^verbatim>\<open>current\<close> pointing at the head of the list; \<open>round_tail\<close> is the rest of the loop
  body after the check messages of \<^verbatim>\<open>current\<close> have been written.
\<close>

function solve_loop :: "'a double_ops \<Rightarrow> 'a state \<Rightarrow> 'a iteration list \<Rightarrow> 'a iteration list"
  and round_tail :: "'a double_ops \<Rightarrow> 'a state \<Rightarrow> 'a iteration \<Rightarrow> 'a iteration list \<Rightarrow> 'a iteration list"
where
  "solve_loop A s [] = []"
| "solve_loop A s (current # rest) = round_tail A s (check_pass A s current) rest"
| "round_tail A s current rest =
     (let cur = belief_pass A s (clear_parity s current)
      in cur # solve_loop A s
           (case rest of [] \<Rightarrow> [] | nxt # later \<Rightarrow> prepare_next A s cur nxt # later))"
  by pat_completeness auto
termination
  by (relation "measure (\<lambda>x. case x of Inl (A, s, its) \<Rightarrow> 2 * length its
                                    | Inr (A, s, cur, rest) \<Rightarrow> 2 * length rest + 1)")
     (auto split: list.splits)

subsection \<open>\<^verbatim>\<open>state_solve\<close>\<close>

definition state_solve :: "'a double_ops \<Rightarrow> 'a state \<Rightarrow> 'a state" where
  "state_solve A s =
     (let s1 = fold (\<lambda>i s. s\<lparr>channel_llr := (channel_llr s)[i := p_to_l A (channel s ! i)]\<rparr>)
                 [0..<n_v s] s
      in case first_iteration s1 of
           [] \<Rightarrow> s1
         | first # rest \<Rightarrow>
             (let first' = fold (\<lambda>c fi. fold (\<lambda>v fi.
                    fi\<lparr>message_c_to_v := upd2 (message_c_to_v fi) c v (channel_llr s1 ! v)\<rparr>)
                      [0..<n_v s1] fi) [0..<n_c s1] first
              in s1\<lparr>first_iteration := solve_loop A s1 (first' # rest)\<rparr>))"

subsection \<open>The display's validity flag and the key handler\<close>

text \<open>Lines 183--189 of \<^verbatim>\<open>state_display\<close>: the flag \<^verbatim>\<open>valid\<close>.\<close>

definition display_valid :: "'a state \<Rightarrow> 'a iteration \<Rightarrow> int" where
  "display_valid s current =
     fold (\<lambda>i valid. if parity current ! i \<noteq> 0 then 0 else valid) [0..<n_c s] 1"

text \<open>
  The keys \<^verbatim>\<open>process_keys\<close> distinguishes; \<open>KEY_OTHER\<close> is any other value of
  \<^verbatim>\<open>getch()\<close>.
\<close>

datatype key = KEY_ESC | KEY_q | KEY_Q | KEY_PPAGE | KEY_NPAGE | KEY_LEFT | KEY_RIGHT
  | KEY_UP | KEY_DOWN | KEY_OTHER

text \<open>Lines 391--395 and 399--403: the new value of \<^verbatim>\<open>s->channel[s->cursor]\<close>.\<close>

definition nudge_KEY_UP :: "'a double_ops \<Rightarrow> 'a \<Rightarrow> 'a" where
  "nudge_KEY_UP A p =
     (let p1 = d_div A (d_floor A (d_mul A p (d_lit A 100))) (d_lit A 100)
      in if d_less A (d_lit A (1 / 100)) p1
         then d_sub A p1 (d_lit A (1 / 100))
         else d_lit A (1 / 100))"

definition nudge_KEY_DOWN :: "'a double_ops \<Rightarrow> 'a \<Rightarrow> 'a" where
  "nudge_KEY_DOWN A p =
     (let p1 = d_div A (d_floor A (d_mul A p (d_lit A 100))) (d_lit A 100)
      in if d_less A p1 (d_lit A (99 / 100))
         then d_add A p1 (d_lit A (1 / 100))
         else d_lit A (99 / 100))"

fun process_keys :: "'a double_ops \<Rightarrow> key \<Rightarrow> 'a state \<Rightarrow> int \<times> 'a state" where
  "process_keys A KEY_ESC s = (0, s)"
| "process_keys A KEY_q s = (0, s)"
| "process_keys A KEY_Q s = (0, s)"
| "process_keys A KEY_PPAGE s = (1, if page s > 0 then s\<lparr>page := page s - 1\<rparr> else s)"
| "process_keys A KEY_NPAGE s =
     (1, if page s < iterations s - 1 then s\<lparr>page := page s + 1\<rparr> else s)"
| "process_keys A KEY_LEFT s =
     (1, if cursor s = 0 then s\<lparr>cursor := int (n_v s) - 1\<rparr> else s\<lparr>cursor := cursor s - 1\<rparr>)"
| "process_keys A KEY_RIGHT s =
     (1, if cursor s = int (n_v s) - 1 then s\<lparr>cursor := 0\<rparr> else s\<lparr>cursor := cursor s + 1\<rparr>)"
| "process_keys A KEY_UP s =
     (1, state_solve A
           (s\<lparr>channel := (channel s)[nat (cursor s) := nudge_KEY_UP A (channel s ! nat (cursor s))]\<rparr>))"
| "process_keys A KEY_DOWN s =
     (1, state_solve A
           (s\<lparr>channel := (channel s)[nat (cursor s) := nudge_KEY_DOWN A (channel s ! nat (cursor s))]\<rparr>))"
| "process_keys A KEY_OTHER s = (1, s)"

subsection \<open>What a well-formed state is\<close>

text \<open>
  The arrays have the sizes \<^verbatim>\<open>state_new\<close> and \<^verbatim>\<open>add_iteration\<close> allocate, and the
  matrix holds zeros and ones.  Nothing is assumed about what the arrays of the
  iterations, or \<^verbatim>\<open>channel_llr\<close>, hold.
\<close>

definition dims2 :: "nat \<Rightarrow> nat \<Rightarrow> 'b list list \<Rightarrow> bool" where
  "dims2 nc nv a \<longleftrightarrow> length a = nc \<and> (\<forall>row \<in> set a. length row = nv)"

definition iteration_ok :: "nat \<Rightarrow> nat \<Rightarrow> 'a iteration \<Rightarrow> bool" where
  "iteration_ok nc nv it \<longleftrightarrow>
     dims2 nc nv (message_v_to_c it) \<and> length (l it) = nv \<and>
     dims2 nc nv (message_c_to_v it) \<and> length (codeword it) = nv \<and>
     length (parity it) = nc"

definition state_ok :: "'a state \<Rightarrow> bool" where
  "state_ok s \<longleftrightarrow>
     length (channel s) = n_v s \<and> length (channel_llr s) = n_v s \<and>
     dims2 (n_c s) (n_v s) (matrix s) \<and>
     (\<forall>row \<in> set (matrix s). \<forall>x \<in> set row. x = 0 \<or> x = 1) \<and>
     (\<forall>it \<in> set (first_iteration s). iteration_ok (n_c s) (n_v s) it)"

subsection \<open>The formulas of the specification\<close>

text \<open>
  These follow the words of the specification, section 4.3, to be compared with the
  code above.  A sum or product over a set of neighbours is taken in increasing index
  order, starting from the channel value (sums) or from 1 (products).
\<close>

definition edge_connected :: "8 word list list \<Rightarrow> nat \<Rightarrow> nat \<Rightarrow> bool" where
  "edge_connected M c v \<longleftrightarrow> M ! c ! v = 1"

definition llr_of :: "'a double_ops \<Rightarrow> 'a state \<Rightarrow> nat \<Rightarrow> 'a" where
  "llr_of A s v = d_log A (d_div A (channel s ! v) (d_sub A (d_lit A 1) (channel s ! v)))"

definition spec_check_message ::
  "'a double_ops \<Rightarrow> 8 word list list \<Rightarrow> nat \<Rightarrow> (nat \<Rightarrow> 'a) \<Rightarrow> nat \<Rightarrow> nat \<Rightarrow> 'a" where
  "spec_check_message A M nv incoming c v =
     (let t = fold (\<lambda>x t. d_mul A t x)
                (map (\<lambda>v'. d_tanh A (d_div A (incoming v') (d_lit A 2)))
                   (filter (\<lambda>v'. v' \<noteq> v \<and> edge_connected M c v') [0..<nv]))
                (d_lit A 1)
      in d_log A (d_div A (d_add A (d_lit A 1) t) (d_sub A (d_lit A 1) t)))"

definition spec_variable_message ::
  "'a double_ops \<Rightarrow> 8 word list list \<Rightarrow> nat \<Rightarrow> (nat \<Rightarrow> 'a) \<Rightarrow> 'a list list \<Rightarrow> nat \<Rightarrow> nat \<Rightarrow> 'a" where
  "spec_variable_message A M nc llr check_message c v =
     fold (\<lambda>x p. d_add A p x)
       (map (\<lambda>c'. check_message ! c' ! v)
          (filter (\<lambda>c'. c' \<noteq> c \<and> edge_connected M c' v) [0..<nc]))
       (llr v)"

definition spec_belief ::
  "'a double_ops \<Rightarrow> 8 word list list \<Rightarrow> nat \<Rightarrow> (nat \<Rightarrow> 'a) \<Rightarrow> 'a list list \<Rightarrow> nat \<Rightarrow> 'a" where
  "spec_belief A M nc llr check_message v =
     fold (\<lambda>x p. d_add A p x)
       (map (\<lambda>c. check_message ! c ! v) (filter (\<lambda>c. edge_connected M c v) [0..<nc]))
       (llr v)"

definition spec_syndrome :: "8 word list list \<Rightarrow> nat \<Rightarrow> 8 word list \<Rightarrow> nat \<Rightarrow> 8 word" where
  "spec_syndrome M nv cw c =
     fold (\<lambda>x p. p XOR x) (map (\<lambda>v. cw ! v) (filter (\<lambda>v. edge_connected M c v) [0..<nv])) 0"

subsection \<open>Functions derived from the code, used to state intermediate results\<close>

text \<open>
  \<open>belief_of\<close>, \<open>bit_of\<close> and \<open>parity_of\<close> are the values the loop over \<open>v\<close> in
  \<^verbatim>\<open>state_solve\<close> accumulates; \<open>do_round\<close> is one pass of the while loop without the
  preparation of the next iteration; \<open>check_messages\<close> and \<open>next_messages\<close> are the
  arrays the two nested loops fill; \<open>llr_state\<close> and \<open>seed\<close> are the state after the
  first loop of \<^verbatim>\<open>state_solve\<close> and the array its second loop writes.
\<close>

definition belief_of :: "'a double_ops \<Rightarrow> 'a state \<Rightarrow> 'a list list \<Rightarrow> nat \<Rightarrow> 'a" where
  "belief_of A s mvc v =
     fold (\<lambda>i p. if matrix s ! i ! v \<noteq> 0 then d_add A p (mvc ! i ! v) else p)
       [0..<n_c s] (channel_llr s ! v)"

definition bit_of :: "'a double_ops \<Rightarrow> 'a \<Rightarrow> 8 word" where
  "bit_of A x = (if d_less A x (d_lit A 0) then 1 else 0)"

definition parity_of :: "'a state \<Rightarrow> (nat \<Rightarrow> 8 word) \<Rightarrow> nat \<Rightarrow> nat \<Rightarrow> 8 word \<Rightarrow> 8 word" where
  "parity_of s bt k i p0 =
     fold (\<lambda>v p. if matrix s ! i ! v \<noteq> 0 then p XOR bt v else p) [0..<k] p0"

definition do_round :: "'a double_ops \<Rightarrow> 'a state \<Rightarrow> 'a iteration \<Rightarrow> 'a iteration" where
  "do_round A s cur = belief_pass A s (clear_parity s (check_pass A s cur))"

definition check_messages :: "'a double_ops \<Rightarrow> 'a state \<Rightarrow> 'a iteration \<Rightarrow> 'a list list" where
  "check_messages A s cur =
     map (\<lambda>c. map (\<lambda>v. calc_message_v_to_c A s cur v c) [0..<n_v s]) [0..<n_c s]"

definition next_messages :: "'a double_ops \<Rightarrow> 'a state \<Rightarrow> 'a iteration \<Rightarrow> 'a list list" where
  "next_messages A s cur =
     map (\<lambda>c. map (\<lambda>v. calc_message_c_to_v A s cur v c) [0..<n_v s]) [0..<n_c s]"

definition llr_state :: "'a double_ops \<Rightarrow> 'a state \<Rightarrow> 'a state" where
  "llr_state A s = s\<lparr>channel_llr := map (\<lambda>i. p_to_l A (channel s ! i)) [0..<n_v s]\<rparr>"

definition seed :: "'a double_ops \<Rightarrow> 'a state \<Rightarrow> 'a list list" where
  "seed A s = map (\<lambda>c. map (\<lambda>v. p_to_l A (channel s ! v)) [0..<n_v s]) [0..<n_c s]"

text \<open>The loop reads only four fields of the state.\<close>

definition same_code :: "'a state \<Rightarrow> 'a state \<Rightarrow> bool" where
  "same_code s s' \<longleftrightarrow>
     n_v s = n_v s' \<and> n_c s = n_c s' \<and> matrix s = matrix s' \<and> channel_llr s = channel_llr s'"

definition new_iteration :: "'a garbage \<Rightarrow> nat \<Rightarrow> nat \<Rightarrow> 'a iteration" where
  "new_iteration G nc nv =
     \<lparr>message_v_to_c = map (\<lambda>i. malloc_double G (2 * i + 1) nv) [0..<nc],
      l = malloc_double G 0 nv,
      message_c_to_v = map (\<lambda>i. malloc_double G (2 * i + 2) nv) [0..<nc],
      codeword = malloc_byte G 0 nv,
      parity = malloc_byte G 1 nc\<rparr>"

definition edge_eq :: "'a state \<Rightarrow> 'b list list \<Rightarrow> 'b list list \<Rightarrow> bool" where
  "edge_eq s a b \<longleftrightarrow> (\<forall>c<n_c s. \<forall>v<n_v s. matrix s ! c ! v \<noteq> 0 \<longrightarrow> a ! c ! v = b ! c ! v)"

definition same_results :: "'a state \<Rightarrow> 'a iteration \<Rightarrow> 'a iteration \<Rightarrow> bool" where
  "same_results s x y \<longleftrightarrow>
     edge_eq s (message_v_to_c x) (message_v_to_c y) \<and>
     edge_eq s (message_c_to_v x) (message_c_to_v y) \<and>
     l x = l y \<and> codeword x = codeword y \<and> parity x = parity y"

definition zero_garbage :: "real garbage" where
  "zero_garbage = \<lparr>g_double = (\<lambda>b i. 0), g_byte = (\<lambda>b i. 0)\<rparr>"

definition one_garbage :: "real garbage" where
  "one_garbage = \<lparr>g_double = (\<lambda>b i. 1), g_byte = (\<lambda>b i. 1)\<rparr>"

definition main_state :: "real state" where
  "main_state = state_new real_ops N_ITERATIONS zero_garbage (\<lambda>k. zero_garbage)"

definition main_state' :: "real state" where
  "main_state' = state_new real_ops N_ITERATIONS one_garbage (\<lambda>k. one_garbage)"

text \<open>
  IEEE 754 binary64 arithmetic on finite values, each double taken as the rational it
  denotes.  \<open>binary64 x\<close> rounds \<open>x\<close> to the nearest double, ties to even.  Overflow,
  subnormal numbers, infinities and NaN are not modelled: the values below stay between
  \<open>2 ^ - 7\<close> and \<open>2 ^ 7\<close>.  IEEE 754 does not fix the results of \<^verbatim>\<open>exp\<close>, \<^verbatim>\<open>log\<close> and
  \<^verbatim>\<open>tanh\<close>, so they are parameters of \<open>binary64_ops\<close>.
\<close>

definition ilog2 :: "rat \<Rightarrow> int" where
  "ilog2 x = (let (a, b) = quotient_of x; k = bitlen a - bitlen b
              in if x < 2 powi k then k - 1 else k)"

definition round_even :: "rat \<Rightarrow> int" where
  "round_even m = (let f = \<lfloor>m\<rfloor>; d = m - of_int f
                   in if d < 1 / 2 then f else if 1 / 2 < d then f + 1
                      else if even f then f else f + 1)"

definition binary64 :: "rat \<Rightarrow> rat" where
  "binary64 x = (if x = 0 then 0
                 else let q = 2 powi (ilog2 \<bar>x\<bar> - 52)
                      in sgn x * of_int (round_even (\<bar>x\<bar> / q)) * q)"

definition binary64_ops :: "(rat \<Rightarrow> rat) \<Rightarrow> (rat \<Rightarrow> rat) \<Rightarrow> (rat \<Rightarrow> rat) \<Rightarrow> rat double_ops" where
  "binary64_ops E L T =
     \<lparr>d_lit = binary64,
      d_add = (\<lambda>x y. binary64 (x + y)), d_sub = (\<lambda>x y. binary64 (x - y)),
      d_mul = (\<lambda>x y. binary64 (x * y)), d_div = (\<lambda>x y. binary64 (x / y)),
      d_less = (<), d_exp = E, d_log = L, d_tanh = T,
      d_floor = (\<lambda>x. of_int \<lfloor>x\<rfloor>)\<rparr>"

definition nudge_up64 :: "rat \<Rightarrow> rat" where
  "nudge_up64 p =
     (let p1 = binary64 (of_int \<lfloor>binary64 (p * binary64 100)\<rfloor> / binary64 100)
      in if p1 < binary64 (99 / 100) then binary64 (p1 + binary64 (1 / 100))
         else binary64 (99 / 100))"

text \<open>
  The run of \<^verbatim>\<open>main\<close> is followed through the map \<open>x \<mapsto> tanh (x / 2)\<close>: there the check
  rule is a product, and a sum of LLRs is \<open>oplus\<close> of their images, up to the rounding
  errors of the arithmetic.
\<close>

definition half_tanh :: "real \<Rightarrow> real" where
  "half_tanh x = tanh (x / 2)"

definition oplus :: "real \<Rightarrow> real \<Rightarrow> real" where
  "oplus a b = (a + b) / (1 + a * b)"

text \<open>
  Enclosures with integer end points: the pair \<open>(lo, hi)\<close> stands for the interval from
  \<open>lo / scale\<close> to \<open>hi / scale\<close>.
\<close>

definition scale :: int where
  "scale = 1000000"

definition inside :: "real \<Rightarrow> int \<times> int \<Rightarrow> bool" where
  "inside x I \<longleftrightarrow>
     real_of_int (fst I) / real_of_int scale \<le> x \<and> x \<le> real_of_int (snd I) / real_of_int scale"

definition imul :: "int \<times> int \<Rightarrow> int \<times> int \<Rightarrow> int \<times> int" where
  "imul a b =
     (let p1 = fst a * fst b; p2 = fst a * snd b; p3 = snd a * fst b; p4 = snd a * snd b
      in (min (min p1 p2) (min p3 p4) div scale, - (- max (max p1 p2) (max p3 p4) div scale)))"

definition proper :: "int \<times> int \<Rightarrow> bool" where
  "proper a \<longleftrightarrow> - scale < fst a \<and> snd a < scale"

definition ioplus :: "int \<times> int \<Rightarrow> int \<times> int \<Rightarrow> int \<times> int" where
  "ioplus a b =
     (if proper a \<and> proper b
      then ((fst a + fst b) * scale * scale div (scale * scale + fst a * fst b),
            - (- ((snd a + snd b) * scale * scale) div (scale * scale + snd a * snd b)))
      else (- scale, scale))"

text \<open>
  The run of \<^verbatim>\<open>main\<close> is followed for every arithmetic on the reals that is accurate:
  the result of an operation differs from the exact result \<open>y\<close> by at most
  \<open>eps * (\<bar>y\<bar> + 1)\<close>, as long as \<open>\<bar>y\<bar>\<close> is at most \<open>big\<close>, and the literals
  \<^verbatim>\<open>0\<close>, \<^verbatim>\<open>1\<close>, \<^verbatim>\<open>2\<close> and those of \<^verbatim>\<open>initial_r\<close>, all of them binary fractions, are exact.
  IEEE 754 binary64 operations on finite values have a relative error of at most
  \<open>2 ^ - 53\<close> in the normal range and an absolute error of at most \<open>2 ^ - 1075\<close> below it,
  and overflow only above \<open>2 ^ 1023\<close>; \<open>eps\<close> leaves room for a library whose \<^verbatim>\<open>exp\<close>,
  \<^verbatim>\<open>log\<close> and \<^verbatim>\<open>tanh\<close> are wrong by thousands of units in the last place.  Exact
  arithmetic is accurate as well.
\<close>

definition eps :: real where
  "eps = 1 / 2 ^ 40"

definition big :: real where
  "big = 2 ^ 20"

definition near :: "real \<Rightarrow> real \<Rightarrow> bool" where
  "near x y \<longleftrightarrow> \<bar>x - y\<bar> \<le> eps * (\<bar>y\<bar> + 1)"

definition accurate :: "real double_ops \<Rightarrow> bool" where
  "accurate A \<longleftrightarrow>
     d_lit A 0 = 0 \<and> d_lit A 1 = 1 \<and> d_lit A 2 = 2 \<and>
     (\<forall>q \<in> set initial_r. d_lit A q = of_rat q) \<and>
     (\<forall>x y. \<bar>x + y\<bar> \<le> big \<longrightarrow> near (d_add A x y) (x + y)) \<and>
     (\<forall>x y. \<bar>x - y\<bar> \<le> big \<longrightarrow> near (d_sub A x y) (x - y)) \<and>
     (\<forall>x y. \<bar>x * y\<bar> \<le> big \<longrightarrow> near (d_mul A x y) (x * y)) \<and>
     (\<forall>x y. y \<noteq> 0 \<and> \<bar>x / y\<bar> \<le> big \<longrightarrow> near (d_div A x y) (x / y)) \<and>
     (\<forall>x. exp x \<le> big \<longrightarrow> near (d_exp A x) (exp x)) \<and>
     (\<forall>x. 0 < x \<and> \<bar>ln x\<bar> \<le> big \<longrightarrow> near (d_log A x) (ln x)) \<and>
     (\<forall>x. near (d_tanh A x) (tanh x)) \<and>
     (\<forall>x y. d_less A x y \<longleftrightarrow> x < y)"

text \<open>\<open>rel k x y\<close>: \<open>x\<close> is \<open>y\<close> up to the relative error \<open>k\<close>.\<close>

definition rel :: "real \<Rightarrow> real \<Rightarrow> real \<Rightarrow> bool" where
  "rel k x y \<longleftrightarrow> \<bar>x - y\<bar> \<le> k * \<bar>y\<bar>"

text \<open>
  The run of \<^verbatim>\<open>main\<close>: \<open>run_of A G GI\<close> is the history after \<^verbatim>\<open>state_new\<close> and
  \<^verbatim>\<open>state_solve\<close>, \<open>llr_main A v\<close> the channel LLR the run recovers for variable \<open>v\<close>,
  \<open>var_t\<close>, \<open>chk_t\<close> and \<open>bel_t\<close> the images under \<open>half_tanh\<close> of the variable
  messages, check messages and beliefs of round \<open>r\<close>, and \<open>tau\<close> those of the channel
  values of the source.
\<close>

definition run_of :: "real double_ops \<Rightarrow> real garbage \<Rightarrow> (nat \<Rightarrow> real garbage) \<Rightarrow> real iteration list" where
  "run_of A G GI = first_iteration (state_solve A (state_new A N_ITERATIONS G GI))"

definition llr_main :: "real double_ops \<Rightarrow> nat \<Rightarrow> real" where
  "llr_main A v = p_to_l A (l_to_p A (d_lit A (initial_r ! v)))"

definition var_t :: "real double_ops \<Rightarrow> real garbage \<Rightarrow> (nat \<Rightarrow> real garbage) \<Rightarrow> nat \<Rightarrow> nat \<Rightarrow> nat \<Rightarrow> real" where
  "var_t A G GI r c v = half_tanh (message_c_to_v (run_of A G GI ! r) ! c ! v)"

definition chk_t :: "real double_ops \<Rightarrow> real garbage \<Rightarrow> (nat \<Rightarrow> real garbage) \<Rightarrow> nat \<Rightarrow> nat \<Rightarrow> nat \<Rightarrow> real" where
  "chk_t A G GI r c v = half_tanh (message_v_to_c (run_of A G GI ! r) ! c ! v)"

definition tau :: "nat \<Rightarrow> real" where
  "tau v = half_tanh (of_rat (initial_r ! v))"

definition others_v :: "nat \<Rightarrow> nat \<Rightarrow> nat list" where
  "others_v c v = filter (\<lambda>v'. v' \<noteq> v \<and> edge_connected matrix_const c v') [0..<6]"

definition others_c :: "nat \<Rightarrow> nat \<Rightarrow> nat list" where
  "others_c c v = filter (\<lambda>c'. c' \<noteq> c \<and> edge_connected matrix_const c' v) [0..<4]"

definition checks_of :: "nat \<Rightarrow> nat list" where
  "checks_of v = filter (\<lambda>c. edge_connected matrix_const c v) [0..<4]"

text \<open>
  Checking an enclosure needs no division: \<open>imul_ok a b r\<close> says that \<open>r\<close> encloses the
  products of \<open>a\<close> and \<open>b\<close>, \<open>ioplus_ok a b r\<close> that \<open>r\<close> encloses \<open>oplus\<close> on \<open>a\<close>
  and \<open>b\<close>.  A computed value may differ from the exact one by \<open>slack / scale\<close>, so the
  exact result has to lie in the enclosure shrunk by \<open>slack\<close>; \<open>bounded\<close> keeps the
  messages away from \<open>1\<close> and \<open>- 1\<close>, where the logarithm of the tanh rule loses accuracy.
\<close>

definition imul_ok :: "int \<times> int \<Rightarrow> int \<times> int \<Rightarrow> int \<times> int \<Rightarrow> bool" where
  "imul_ok a b r \<longleftrightarrow>
     (let p1 = fst a * fst b; p2 = fst a * snd b; p3 = snd a * fst b; p4 = snd a * snd b
      in fst r * scale \<le> min (min p1 p2) (min p3 p4) \<and>
         max (max p1 p2) (max p3 p4) \<le> snd r * scale)"

definition ioplus_ok :: "int \<times> int \<Rightarrow> int \<times> int \<Rightarrow> int \<times> int \<Rightarrow> bool" where
  "ioplus_ok a b r \<longleftrightarrow>
     proper a \<and> proper b \<and> fst a \<le> snd a \<and> fst b \<le> snd b \<and>
     fst r * (scale * scale + fst a * fst b) \<le> (fst a + fst b) * scale * scale \<and>
     (snd a + snd b) * scale * scale \<le> snd r * (scale * scale + snd a * snd b)"

definition tau_bounds :: "(int \<times> int) list" where
  "tau_bounds = [(- 244920, - 244917), (848282, 848285), (- 964029, - 964026),
                 (986613, 986616), (- 941377, - 941374), (848282, 848285)]"

definition edges :: "(nat \<times> nat) list" where
  "edges = filter (\<lambda>(c, v). edge_connected matrix_const c v) (List.product [0..<4] [0..<6])"

definition slack :: int where
  "slack = 2"

definition shrink :: "int \<times> int \<Rightarrow> int \<times> int" where
  "shrink i = (fst i + slack, snd i - slack)"

definition bounded :: "int \<times> int \<Rightarrow> bool" where
  "bounded i \<longleftrightarrow> - 999400 \<le> fst i \<and> snd i \<le> 999400"

text \<open>The enclosures of the channel values, widened by \<open>slack\<close>.\<close>

definition llr_bounds :: "(int \<times> int) list" where
  "llr_bounds =
     [(- 244922, - 244915), (848280, 848287), (- 964031, - 964024), (986611, 986618), (- 941379, - 941372), (848280, 848287)]"

definition check_ok :: "(int \<times> int) list list \<Rightarrow> (int \<times> int) list list \<Rightarrow> nat \<Rightarrow> nat \<Rightarrow> bool" where
  "check_ok I W c v \<longleftrightarrow>
     (case others_v c v of
        [a, b] \<Rightarrow> bounded (I ! c ! a) \<and> bounded (I ! c ! b) \<and> bounded (W ! c ! v) \<and>
                  imul_ok (I ! c ! a) (I ! c ! b) (shrink (W ! c ! v))
      | _ \<Rightarrow> False)"

definition var_ok :: "(int \<times> int) list list \<Rightarrow> (int \<times> int) list list \<Rightarrow> nat \<Rightarrow> nat \<Rightarrow> bool" where
  "var_ok W I c v \<longleftrightarrow>
     (case others_c c v of
        [c'] \<Rightarrow> bounded (W ! c' ! v) \<and>
                 ioplus_ok (llr_bounds ! v) (W ! c' ! v) (shrink (I ! c ! v))
      | _ \<Rightarrow> False)"

definition bel_ok :: "(int \<times> int) list list \<Rightarrow> (int \<times> int) list \<Rightarrow> (int \<times> int) list \<Rightarrow> nat \<Rightarrow> bool" where
  "bel_ok W Bm B v \<longleftrightarrow>
     (case checks_of v of
        [c1, c2] \<Rightarrow> bounded (W ! c1 ! v) \<and> bounded (W ! c2 ! v) \<and>
                    ioplus_ok (llr_bounds ! v) (W ! c1 ! v) (shrink (Bm ! v)) \<and>
                    ioplus_ok (Bm ! v) (W ! c2 ! v) (shrink (B ! v))
      | _ \<Rightarrow> False)"

definition round_ok ::
  "(int \<times> int) list list \<Rightarrow> (int \<times> int) list list \<Rightarrow> (int \<times> int) list list \<Rightarrow> bool" where
  "round_ok I W I' \<longleftrightarrow> list_all (\<lambda>(c, v). check_ok I W c v \<and> var_ok W I' c v) edges"

definition last_ok ::
  "(int \<times> int) list list \<Rightarrow> (int \<times> int) list list \<Rightarrow> (int \<times> int) list \<Rightarrow> (int \<times> int) list \<Rightarrow> bool" where
  "last_ok I W Bm B \<longleftrightarrow>
     list_all (\<lambda>(c, v). check_ok I W c v) edges \<and> list_all (bel_ok W Bm B) [0..<6]"

text \<open>The enclosures of the eight rounds, found by interval arithmetic outside the theory.\<close>

definition vars_0 :: "(int \<times> int) list list" where
  "vars_0 =
     [[(- 244922, - 244915), (848280, 848287), (0, 0), (986611, 986618), (0, 0), (0, 0)],
     [(0, 0), (848280, 848287), (- 964031, - 964024), (0, 0), (- 941379, - 941372), (0, 0)],
     [(- 244922, - 244915), (0, 0), (0, 0), (0, 0), (- 941379, - 941372), (848280, 848287)],
     [(0, 0), (0, 0), (- 964031, - 964024), (986611, 986618), (0, 0), (848280, 848287)]]"

definition checks_0 :: "(int \<times> int) list list" where
  "checks_0 =
     [[(836920, 836938), (- 241647, - 241633), (0, 0), (- 207767, - 207754), (0, 0), (0, 0)],
     [(0, 0), (907503, 907521), (- 798562, - 798545), (0, 0), (- 817777, - 817760), (0, 0)],
     [(- 798562, - 798545), (0, 0), (0, 0), (0, 0), (- 207767, - 207754), (230554, 230567)],
     [(0, 0), (0, 0), (836920, 836938), (- 817777, - 817760), (0, 0), (- 951133, - 951114)]]"

definition vars_1 :: "(int \<times> int) list list" where
  "vars_1 =
     [[(- 872783, - 872765), (992068, 992075), (0, 0), (874005, 874084), (0, 0), (0, 0)],
     [(0, 0), (763043, 763064), (- 657984, - 657889), (0, 0), (- 961158, - 961148), (0, 0)],
     [(744630, 744666), (0, 0), (0, 0), (0, 0), (- 993967, - 993961), (- 532443, - 532277)],
     [(0, 0), (0, 0), (- 995909, - 995902), (979657, 979673), (0, 0), (902354, 902366)]]"

definition checks_1 :: "(int \<times> int) list list" where
  "checks_1 =
     [[(867070, 867159), (- 762888, - 762798), (0, 0), (- 865869, - 865840), (0, 0), (0, 0)],
     [(0, 0), (632326, 632429), (- 733428, - 733395), (0, 0), (- 502086, - 501995), (0, 0)],
     [(529060, 529233), (0, 0), (0, 0), (0, 0), (- 396495, - 396347), (- 740176, - 740131)],
     [(0, 0), (0, 0), (883995, 884026), (- 898677, - 898654), (0, 0), (- 975668, - 975640)]]"

definition vars_2 :: "(int \<times> int) list list" where
  "vars_2 =
     [[(326435, 326661), (963689, 963708), (0, 0), (775735, 775892), (0, 0), (0, 0)],
     [(0, 0), (241999, 242230), (- 541513, - 541338), (0, 0), (- 974240, - 974223), (0, 0)],
     [(789891, 790033), (0, 0), (0, 0), (0, 0), (- 980182, - 980170), (- 739082, - 738801)],
     [(0, 0), (0, 0), (- 994386, - 994379), (828563, 828687), (0, 0), (290503, 290622)]]"

definition checks_2 :: "(int \<times> int) list list" where
  "checks_2 =
     [[(747565, 747736), (253225, 253456), (0, 0), (314579, 314808), (0, 0), (0, 0)],
     [(0, 0), (527381, 527566), (- 235993, - 235758), (0, 0), (- 131173, - 131001), (0, 0)],
     [(724148, 724437), (0, 0), (0, 0), (0, 0), (- 583902, - 583570), (- 774379, - 774225)],
     [(0, 0), (0, 0), (240698, 240837), (- 288993, - 288868), (0, 0), (- 824037, - 823903)]]"

definition vars_3 :: "(int \<times> int) list list" where
  "vars_3 =
     [[(582544, 582955), (950455, 950487), (0, 0), (975856, 975880), (0, 0), (0, 0)],
     [(0, 0), (906731, 906784), (- 941892, - 941859), (0, 0), (- 984262, - 984240), (0, 0)],
     [(615299, 615550), (0, 0), (0, 0), (0, 0), (- 954669, - 954643), (80543, 80987)],
     [(0, 0), (0, 0), (- 977615, - 977595), (992994, 993006), (0, 0), (215383, 215779)]]"

definition checks_3 :: "(int \<times> int) list list" where
  "checks_3 =
     [[(927505, 927564), (568477, 568897), (0, 0), (553679, 554094), (0, 0), (0, 0)],
     [(0, 0), (927013, 927071), (- 892516, - 892438), (0, 0), (- 854095, - 854010), (0, 0)],
     [(- 77318, - 76887), (0, 0), (0, 0), (0, 0), (49556, 49854), (- 587649, - 587388)],
     [(0, 0), (0, 0), (213872, 214272), (- 210951, - 210555), (0, 0), (- 970780, - 970743)]]"

definition vars_4 :: "(int \<times> int) list list" where
  "vars_4 =
     [[(- 316254, - 315852), (993799, 993809), (0, 0), (979523, 979555), (0, 0), (0, 0)],
     [(0, 0), (955827, 955888), (- 945000, - 944940), (0, 0), (- 935466, - 935416), (0, 0)],
     [(883219, 883318), (0, 0), (0, 0), (0, 0), (- 995261, - 995253), (- 694027, - 693676)],
     [(0, 0), (0, 0), (- 997924, - 997917), (996133, 996144), (0, 0), (519691, 520005)]]"

definition checks_4 :: "(int \<times> int) list list" where
  "checks_4 =
     [[(973446, 973493), (- 309791, - 309382), (0, 0), (- 314299, - 313891), (0, 0), (0, 0)],
     [(0, 0), (883909, 884018), (- 894203, - 894093), (0, 0), (- 903317, - 903197), (0, 0)],
     [(690381, 690741), (0, 0), (0, 0), (0, 0), (- 613049, - 612665), (- 879134, - 879024)],
     [(0, 0), (0, 0), (517679, 518002), (- 518928, - 518606), (0, 0), (- 994079, - 994056)]]"

definition vars_5 :: "(int \<times> int) list list" where
  "vars_5 =
     [[(536107, 536607), (989932, 989947), (0, 0), (958325, 958388), (0, 0), (0, 0)],
     [(0, 0), (730439, 730666), (- 891029, - 890912), (0, 0), (- 985620, - 985595), (0, 0)],
     [(956591, 956673), (0, 0), (0, 0), (0, 0), (- 996940, - 996930), (- 930183, - 929912)],
     [(0, 0), (0, 0), (- 997959, - 997951), (974491, 974532), (0, 0), (- 121356, - 120850)]]"

definition checks_5 :: "(int \<times> int) list list" where
  "checks_5 =
     [[(948674, 948756), (513762, 514280), (0, 0), (530707, 531215), (0, 0), (0, 0)],
     [(0, 0), (878076, 878219), (- 720162, - 719915), (0, 0), (- 651047, - 650754), (0, 0)],
     [(927055, 927339), (0, 0), (0, 0), (0, 0), (- 889883, - 889543), (- 953748, - 953652)],
     [(0, 0), (0, 0), (- 118268, - 117765), (120600, 121111), (0, 0), (- 972545, - 972492)]]"

definition vars_6 :: "(int \<times> int) list list" where
  "vars_6 =
     [[(882511, 882964), (989396, 989415), (0, 0), (989475, 989497), (0, 0), (0, 0)],
     [(0, 0), (948618, 948696), (- 971533, - 971494), (0, 0), (- 996490, - 996473), (0, 0)],
     [(916760, 916897), (0, 0), (0, 0), (0, 0), (- 987320, - 987300), (- 710050, - 709547)],
     [(0, 0), (0, 0), (- 994062, - 994049), (995873, 995886), (0, 0), (- 552322, - 551562)]]"

definition checks_6 :: "(int \<times> int) list list" where
  "checks_6 =
     [[(978980, 979026), (873220, 873693), (0, 0), (873150, 873620), (0, 0), (0, 0)],
     [(0, 0), (968065, 968125), (- 945369, - 945270), (0, 0), (- 921692, - 921574), (0, 0)],
     [(700533, 701049), (0, 0), (0, 0), (0, 0), (- 651045, - 650482), (- 905273, - 905115)],
     [(0, 0), (0, 0), (- 550052, - 549283), (548277, 549045), (0, 0), (- 989975, - 989944)]]"

definition vars_7 :: "(int \<times> int) list list" where
  "vars_7 =
     [[(549971, 550688), (997337, 997347), (0, 0), (996073, 996088), (0, 0), (0, 0)],
     [(0, 0), (988948, 988997), (- 989426, - 989396), (0, 0), (- 987320, - 987288), (0, 0)],
     [(965576, 965656), (0, 0), (0, 0), (0, 0), (- 997545, - 997535), (- 884358, - 884009)],
     [(0, 0), (0, 0), (- 998974, - 998967), (999085, 999094), (0, 0), (- 245583, - 244732)]]"

definition checks_7 :: "(int \<times> int) list list" where
  "checks_7 =
     [[(993418, 993448), (547809, 548536), (0, 0), (548504, 549230), (0, 0), (0, 0)],
     [(0, 0), (976816, 976883), (- 976459, - 976374), (0, 0), (- 978542, - 978459), (0, 0)],
     [(881827, 882189), (0, 0), (0, 0), (0, 0), (- 853988, - 853575), (- 963288, - 963193)],
     [(0, 0), (0, 0), (- 245363, - 244506), (244477, 245334), (0, 0), (- 998071, - 998050)]]"

definition bel_mid :: "(int \<times> int) list" where
  "bel_mid =
     [(989169, 989223), (953157, 953260), (- 999566, - 999560), (996075, 996090), (- 999348, - 999340), (- 628936, - 628119)]"

definition bel_fin :: "(int \<times> int) list" where
  "bel_fin =
     [(999314, 999325), (999435, 999443), (- 999739, - 999730), (997613, 997631), (- 999951, - 999945), (- 999563, - 999552)]"

text \<open>Enclosure of a table on the edges of the graph.\<close>

definition encl :: "(nat \<Rightarrow> nat \<Rightarrow> real) \<Rightarrow> (int \<times> int) list list \<Rightarrow> bool" where
  "encl u I \<longleftrightarrow> (\<forall>(c, v) \<in> set edges. inside (u c v) (I ! c ! v))"

section \<open>Properties of the loops\<close>

lemma length_upd2 [simp]: "length (upd2 a c v x) = length a"
  by (simp add: upd2_def)

lemma dims2_nth_iff: "dims2 nc nv a \<longleftrightarrow> length a = nc \<and> (\<forall>c<nc. length (a ! c) = nv)"
  unfolding dims2_def by (auto simp: all_set_conv_all_nth)

lemma dims2_upd2 [simp]: "dims2 nc nv a \<Longrightarrow> dims2 nc nv (upd2 a c v x)"
  unfolding dims2_nth_iff upd2_def
  by (cases "c < length a") (auto simp: nth_list_update)

lemma nth_upd2:
  "dims2 nc nv a \<Longrightarrow> c < nc \<Longrightarrow> v < nv \<Longrightarrow>
   upd2 a c v x ! c' ! v' = (if c' = c \<and> v' = v then x else a ! c' ! v')"
  unfolding dims2_def upd2_def
  by (auto simp: nth_list_update)

lemma dims2_nth: "dims2 nc nv a \<Longrightarrow> c < nc \<Longrightarrow> length (a ! c) = nv"
  unfolding dims2_def by auto

lemma dims2_eqI:
  assumes "dims2 nc nv a" "dims2 nc nv b"
    and "\<And>c v. c < nc \<Longrightarrow> v < nv \<Longrightarrow> a ! c ! v = b ! c ! v"
  shows "a = b"
proof (rule nth_equalityI)
  show "length a = length b" using assms(1,2) by (simp add: dims2_def)
next
  fix c assume "c < length a"
  then have c: "c < nc" using assms(1) by (simp add: dims2_def)
  show "a ! c = b ! c"
  proof (rule nth_equalityI)
    show "length (a ! c) = length (b ! c)"
      using dims2_nth[OF assms(1) c] dims2_nth[OF assms(2) c] by simp
  next
    fix v assume "v < length (a ! c)"
    then have "v < nv" using dims2_nth[OF assms(1) c] by simp
    then show "a ! c ! v = b ! c ! v" using assms(3) c by blast
  qed
qed

lemma dims2_map [simp]: "dims2 nc nv (map (\<lambda>c. map (f c) [0..<nv]) [0..<nc])"
  by (auto simp: dims2_def)

text \<open>Filling one row, then all rows.\<close>

lemma fill_row:
  assumes "dims2 nc nv a" "c < nc" "k \<le> nv"
  shows "dims2 nc nv (fold (\<lambda>v a. upd2 a c v (f v)) [0..<k] a) \<and>
         (\<forall>c' v'. c' < nc \<longrightarrow> v' < nv \<longrightarrow>
            fold (\<lambda>v a. upd2 a c v (f v)) [0..<k] a ! c' ! v' =
              (if c' = c \<and> v' < k then f v' else a ! c' ! v'))"
  using assms(3)
proof (induction k)
  case 0
  then show ?case using assms(1) by simp
next
  case (Suc k)
  then have IH: "dims2 nc nv (fold (\<lambda>v a. upd2 a c v (f v)) [0..<k] a)"
    "\<And>c' v'. c' < nc \<Longrightarrow> v' < nv \<Longrightarrow>
            fold (\<lambda>v a. upd2 a c v (f v)) [0..<k] a ! c' ! v' =
              (if c' = c \<and> v' < k then f v' else a ! c' ! v')"
    and k: "k < nv" by auto
  show ?case
    using IH k assms(2) by (auto simp: nth_upd2 less_Suc_eq)
qed

lemma fill_all:
  assumes "dims2 nc nv a" "k \<le> nc"
  shows "dims2 nc nv (fold (\<lambda>c a. fold (\<lambda>v a. upd2 a c v (f c v)) [0..<nv] a) [0..<k] a) \<and>
         (\<forall>c' v'. c' < nc \<longrightarrow> v' < nv \<longrightarrow>
            fold (\<lambda>c a. fold (\<lambda>v a. upd2 a c v (f c v)) [0..<nv] a) [0..<k] a ! c' ! v' =
              (if c' < k then f c' v' else a ! c' ! v'))"
  using assms(2)
proof (induction k)
  case 0
  then show ?case using assms(1) by simp
next
  case (Suc k)
  let ?b = "fold (\<lambda>c a. fold (\<lambda>v a. upd2 a c v (f c v)) [0..<nv] a) [0..<k] a"
  from Suc have IH: "dims2 nc nv ?b"
    "\<And>c' v'. c' < nc \<Longrightarrow> v' < nv \<Longrightarrow> ?b ! c' ! v' = (if c' < k then f c' v' else a ! c' ! v')"
    and k: "k < nc" by auto
  from fill_row[OF IH(1) k order_refl, of "f k"]
  show ?case using IH(2) k by (auto simp: less_Suc_eq)
qed

lemma fill2:
  assumes "dims2 nc nv a"
  shows "fold (\<lambda>c a. fold (\<lambda>v a. upd2 a c v (f c v)) [0..<nv] a) [0..<nc] a =
         map (\<lambda>c. map (f c) [0..<nv]) [0..<nc]"
  using fill_all[OF assms order_refl, of f]
  by (intro dims2_eqI[of nc nv]) auto

lemma fill1_nth:
  "k \<le> length a \<Longrightarrow>
   length (fold (\<lambda>i a. a[i := f i]) [0..<k] a) = length a \<and>
   (\<forall>j<length a. fold (\<lambda>i a. a[i := f i]) [0..<k] a ! j = (if j < k then f j else a ! j))"
  by (induction k) (auto simp: nth_list_update less_Suc_eq)

lemma fill1:
  assumes "length a = n"
  shows "fold (\<lambda>i a. a[i := f i]) [0..<n] a = map f [0..<n]"
  using fill1_nth[of n a f] assms by (intro nth_equalityI) auto

lemma calc_v_to_c_cong:
  "message_c_to_v it' = message_c_to_v it \<Longrightarrow>
   calc_message_v_to_c A s it' v c = calc_message_v_to_c A s it v c"
  by (simp add: calc_message_v_to_c_def cong: if_cong)

lemma calc_v_to_c_upd [simp]:
  "calc_message_v_to_c A s (it\<lparr>message_v_to_c := a\<rparr>) v c = calc_message_v_to_c A s it v c"
  by (simp add: calc_message_v_to_c_def cong: if_cong)

lemma check_row:
  "fold (\<lambda>v cur. cur\<lparr>message_v_to_c :=
       upd2 (message_v_to_c cur) c v (calc_message_v_to_c A s cur v c)\<rparr>) xs cur =
   cur\<lparr>message_v_to_c :=
       fold (\<lambda>v a. upd2 a c v (calc_message_v_to_c A s cur v c)) xs (message_v_to_c cur)\<rparr>"
  by (induction xs arbitrary: cur) simp_all

lemma check_rows:
  "fold (\<lambda>c cur. fold (\<lambda>v cur. cur\<lparr>message_v_to_c :=
       upd2 (message_v_to_c cur) c v (calc_message_v_to_c A s cur v c)\<rparr>) ys cur) xs cur =
   cur\<lparr>message_v_to_c :=
       fold (\<lambda>c a. fold (\<lambda>v a. upd2 a c v (calc_message_v_to_c A s cur v c)) ys a) xs
         (message_v_to_c cur)\<rparr>"
  by (induction xs arbitrary: cur) (simp_all add: check_row)

lemma check_pass_eq:
  assumes "dims2 (n_c s) (n_v s) (message_v_to_c cur)"
  shows "check_pass A s cur =
         cur\<lparr>message_v_to_c :=
           map (\<lambda>c. map (\<lambda>v. calc_message_v_to_c A s cur v c) [0..<n_v s]) [0..<n_c s]\<rparr>"
  unfolding check_pass_def check_rows
  by (simp add: fill2[OF assms])

lemma prepare_row:
  "fold (\<lambda>v nx. nx\<lparr>message_c_to_v := upd2 (message_c_to_v nx) c v (f c v)\<rparr>) xs nx =
   nx\<lparr>message_c_to_v := fold (\<lambda>v a. upd2 a c v (f c v)) xs (message_c_to_v nx)\<rparr>"
  by (induction xs arbitrary: nx) simp_all

lemma prepare_rows:
  "fold (\<lambda>c nx. fold (\<lambda>v nx. nx\<lparr>message_c_to_v := upd2 (message_c_to_v nx) c v (f c v)\<rparr>) ys nx)
     xs nx =
   nx\<lparr>message_c_to_v := fold (\<lambda>c a. fold (\<lambda>v a. upd2 a c v (f c v)) ys a) xs (message_c_to_v nx)\<rparr>"
  by (induction xs arbitrary: nx) (simp_all add: prepare_row)

lemma prepare_next_eq:
  assumes "dims2 (n_c s) (n_v s) (message_c_to_v nxt)"
  shows "prepare_next A s cur nxt =
         nxt\<lparr>message_c_to_v :=
           map (\<lambda>c. map (\<lambda>v. calc_message_c_to_v A s cur v c) [0..<n_v s]) [0..<n_c s]\<rparr>"
  unfolding prepare_next_def prepare_rows
  by (simp add: fill2[OF assms])

lemma clear_parity_fold:
  "fold (\<lambda>i cur. cur\<lparr>parity := (parity cur)[i := 0]\<rparr>) xs cur =
   cur\<lparr>parity := fold (\<lambda>i a. a[i := 0]) xs (parity cur)\<rparr>"
  by (induction xs arbitrary: cur) simp_all

lemma clear_parity_eq:
  assumes "length (parity cur) = n_c s"
  shows "clear_parity s cur = cur\<lparr>parity := replicate (n_c s) 0\<rparr>"
proof -
  have "fold (\<lambda>i a. a[i := 0]) [0..<n_c s] (parity cur) = map (\<lambda>i. 0) [0..<n_c s]"
    using fill1[OF assms, of "\<lambda>i. 0"] by simp
  then show ?thesis
    unfolding clear_parity_def clear_parity_fold by (simp add: map_replicate_const)
qed

lemma llr_fold:
  "fold (\<lambda>i s. s\<lparr>channel_llr := (channel_llr s)[i := p_to_l A (channel s ! i)]\<rparr>) xs s =
   s\<lparr>channel_llr := fold (\<lambda>i a. a[i := p_to_l A (channel s ! i)]) xs (channel_llr s)\<rparr>"
  by (induction xs arbitrary: s) simp_all

lemma llr_eq:
  assumes "length (channel_llr s) = n_v s"
  shows "fold (\<lambda>i s. s\<lparr>channel_llr := (channel_llr s)[i := p_to_l A (channel s ! i)]\<rparr>)
           [0..<n_v s] s =
         s\<lparr>channel_llr := map (\<lambda>i. p_to_l A (channel s ! i)) [0..<n_v s]\<rparr>"
  unfolding llr_fold by (simp add: fill1[OF assms])

lemma belief_acc:
  "v < length (l cur) \<Longrightarrow>
   fold (\<lambda>i cur. if matrix s ! i ! v \<noteq> 0
          then cur\<lparr>l := (l cur)[v := d_add A (l cur ! v) (message_v_to_c cur ! i ! v)]\<rparr>
          else cur) xs cur =
   cur\<lparr>l := (l cur)[v := fold (\<lambda>i p. if matrix s ! i ! v \<noteq> 0
                                   then d_add A p (message_v_to_c cur ! i ! v) else p)
                            xs (l cur ! v)]\<rparr>"
  by (induction xs arbitrary: cur) (simp_all cong: if_cong)

lemma parity_acc:
  "fold (\<lambda>i cur. if matrix s ! i ! v \<noteq> 0
          then cur\<lparr>parity := (parity cur)[i := parity cur ! i XOR b]\<rparr>
          else cur) xs cur =
   cur\<lparr>parity := fold (\<lambda>i a. if matrix s ! i ! v \<noteq> 0 then a[i := a ! i XOR b] else a)
                     xs (parity cur)\<rparr>"
  by (induction xs arbitrary: cur) simp_all

lemma parity_acc_nth:
  "k \<le> length a \<Longrightarrow>
   length (fold (\<lambda>i a. if P i then a[i := a ! i XOR b] else a) [0..<k] a) = length a \<and>
   (\<forall>j<length a. fold (\<lambda>i a. if P i then a[i := a ! i XOR b] else a) [0..<k] a ! j =
       (if j < k \<and> P j then a ! j XOR b else a ! j))"
  by (induction k) (auto simp: nth_list_update less_Suc_eq)

lemma parity_acc_eq:
  assumes "length a = n"
  shows "fold (\<lambda>i a. if P i then a[i := a ! i XOR b] else a) [0..<n] a =
         map (\<lambda>i. if P i then a ! i XOR b else a ! i) [0..<n]"
  using parity_acc_nth[of n a P b] assms by (intro nth_equalityI) auto

lemma belief_step_eq:
  assumes "v < n_v s" "length (l cur) = n_v s" "length (parity cur) = n_c s"
  shows "belief_step A s v cur =
         cur\<lparr>l := (l cur)[v := belief_of A s (message_v_to_c cur) v],
             codeword := (codeword cur)[v := bit_of A (belief_of A s (message_v_to_c cur) v)],
             parity := map (\<lambda>i. if matrix s ! i ! v \<noteq> 0
                                 then parity cur ! i XOR bit_of A (belief_of A s (message_v_to_c cur) v)
                                 else parity cur ! i) [0..<n_c s]\<rparr>"
  using assms
  by (simp add: belief_step_def Let_def belief_acc parity_acc parity_acc_eq belief_of_def
      bit_of_def cong: if_cong)

lemma parity_of_Suc:
  "parity_of s bt (Suc k) i p0 =
     (if matrix s ! i ! k \<noteq> 0 then parity_of s bt k i p0 XOR bt k else parity_of s bt k i p0)"
  by (simp add: parity_of_def)

lemma parity_of_0 [simp]: "parity_of s bt 0 i p0 = p0"
  by (simp add: parity_of_def)

lemma belief_pass_inv:
  fixes A :: "'a double_ops" and s :: "'a state" and cur :: "'a iteration"
  assumes "length (l cur) = n_v s" "length (codeword cur) = n_v s" "length (parity cur) = n_c s"
    and "k \<le> n_v s"
  defines "bel \<equiv> belief_of A s (message_v_to_c cur)"
  defines "r \<equiv> fold (belief_step A s) [0..<k] cur"
  shows "message_v_to_c r = message_v_to_c cur \<and> message_c_to_v r = message_c_to_v cur \<and>
         length (l r) = n_v s \<and> length (codeword r) = n_v s \<and> length (parity r) = n_c s \<and>
         (\<forall>v<n_v s. l r ! v = (if v < k then bel v else l cur ! v)) \<and>
         (\<forall>v<n_v s. codeword r ! v = (if v < k then bit_of A (bel v) else codeword cur ! v)) \<and>
         (\<forall>i<n_c s. parity r ! i = parity_of s (\<lambda>v. bit_of A (bel v)) k i (parity cur ! i))"
  using assms(4) unfolding r_def
proof (induction k)
  case 0
  then show ?case using assms(1-3) by simp
next
  case (Suc k)
  let ?r = "fold (belief_step A s) [0..<k] cur"
  from Suc have k: "k < n_v s" and
    IH: "message_v_to_c ?r = message_v_to_c cur" "message_c_to_v ?r = message_c_to_v cur"
      "length (l ?r) = n_v s" "length (codeword ?r) = n_v s" "length (parity ?r) = n_c s"
      "\<And>v. v < n_v s \<Longrightarrow> l ?r ! v = (if v < k then bel v else l cur ! v)"
      "\<And>v. v < n_v s \<Longrightarrow> codeword ?r ! v = (if v < k then bit_of A (bel v) else codeword cur ! v)"
      "\<And>i. i < n_c s \<Longrightarrow> parity ?r ! i = parity_of s (\<lambda>v. bit_of A (bel v)) k i (parity cur ! i)"
    by auto
  have step: "fold (belief_step A s) [0..<Suc k] cur = belief_step A s k ?r" by simp
  show ?case
    unfolding step belief_step_eq[OF k IH(3) IH(5)]
    using k IH by (auto simp: nth_list_update parity_of_Suc bel_def less_Suc_eq)
qed

lemma belief_pass_eq:
  assumes "length (l cur) = n_v s" "length (codeword cur) = n_v s" "length (parity cur) = n_c s"
  shows "belief_pass A s cur =
         cur\<lparr>l := map (belief_of A s (message_v_to_c cur)) [0..<n_v s],
             codeword := map (\<lambda>v. bit_of A (belief_of A s (message_v_to_c cur) v)) [0..<n_v s],
             parity := map (\<lambda>i. parity_of s (\<lambda>v. bit_of A (belief_of A s (message_v_to_c cur) v))
                                   (n_v s) i (parity cur ! i)) [0..<n_c s]\<rparr>"
proof -
  note inv = belief_pass_inv[OF assms order_refl, of A]
  show ?thesis
    unfolding belief_pass_def
    apply (rule iteration.equality)
    using inv by (auto intro!: nth_equalityI)
qed

lemma do_round_eq:
  assumes "iteration_ok (n_c s) (n_v s) cur"
  shows "do_round A s cur =
         cur\<lparr>message_v_to_c := check_messages A s cur,
             l := map (belief_of A s (check_messages A s cur)) [0..<n_v s],
             codeword := map (\<lambda>v. bit_of A (belief_of A s (check_messages A s cur) v)) [0..<n_v s],
             parity := map (\<lambda>i. parity_of s (\<lambda>v. bit_of A (belief_of A s (check_messages A s cur) v))
                                   (n_v s) i 0) [0..<n_c s]\<rparr>"
proof -
  from assms have d: "dims2 (n_c s) (n_v s) (message_v_to_c cur)"
    and len: "length (l cur) = n_v s" "length (codeword cur) = n_v s" "length (parity cur) = n_c s"
    by (simp_all add: iteration_ok_def)
  show ?thesis
    unfolding do_round_def check_pass_eq[OF d]
    by (subst clear_parity_eq, simp add: len, subst belief_pass_eq)
       (simp_all add: len check_messages_def)
qed

lemma do_round_ok:
  "iteration_ok (n_c s) (n_v s) cur \<Longrightarrow> iteration_ok (n_c s) (n_v s) (do_round A s cur)"
  by (simp add: do_round_eq) (simp add: iteration_ok_def check_messages_def)

lemma solve_loop_Cons:
  "solve_loop A s (cur # rest) =
     do_round A s cur #
     solve_loop A s (case rest of [] \<Rightarrow> []
                     | nxt # later \<Rightarrow> prepare_next A s (do_round A s cur) nxt # later)"
  by (simp add: do_round_def Let_def split: list.split)

declare solve_loop.simps(2) [simp del] round_tail.simps [simp del]

lemma prepare_next_ok:
  assumes "iteration_ok (n_c s) (n_v s) nxt"
  shows "prepare_next A s cur nxt = nxt\<lparr>message_c_to_v := next_messages A s cur\<rparr>"
    and "iteration_ok (n_c s) (n_v s) (prepare_next A s cur nxt)"
proof -
  from assms have d: "dims2 (n_c s) (n_v s) (message_c_to_v nxt)"
    by (simp add: iteration_ok_def)
  show "prepare_next A s cur nxt = nxt\<lparr>message_c_to_v := next_messages A s cur\<rparr>"
    by (simp add: prepare_next_eq[OF d] next_messages_def)
  then show "iteration_ok (n_c s) (n_v s) (prepare_next A s cur nxt)"
    using assms by (simp add: iteration_ok_def next_messages_def)
qed

lemma solve_loop_props:
  assumes "iteration_ok (n_c s) (n_v s) cur" "\<forall>it \<in> set rest. iteration_ok (n_c s) (n_v s) it"
  shows "length (solve_loop A s (cur # rest)) = Suc (length rest) \<and>
         solve_loop A s (cur # rest) ! 0 = do_round A s cur \<and>
         (\<forall>r<length rest. solve_loop A s (cur # rest) ! Suc r =
            do_round A s ((rest ! r)\<lparr>message_c_to_v :=
              next_messages A s (solve_loop A s (cur # rest) ! r)\<rparr>))"
  using assms
proof (induction rest arbitrary: cur)
  case Nil
  then show ?case by (simp add: solve_loop_Cons)
next
  case (Cons nxt later)
  let ?c = "do_round A s cur"
  let ?pn = "prepare_next A s ?c nxt"
  from Cons.prems have nxt: "iteration_ok (n_c s) (n_v s) nxt"
    and later: "\<forall>it \<in> set later. iteration_ok (n_c s) (n_v s) it" by simp_all
  note pn = prepare_next_ok[OF nxt, of A ?c]
  note IH = Cons.IH[OF pn(2) later]
  have out: "solve_loop A s (cur # nxt # later) = ?c # solve_loop A s (?pn # later)"
    by (subst solve_loop_Cons) simp
  have "solve_loop A s (cur # nxt # later) ! Suc r =
          do_round A s (((nxt # later) ! r)\<lparr>message_c_to_v :=
              next_messages A s (solve_loop A s (cur # nxt # later) ! r)\<rparr>)"
    if "r < length (nxt # later)" for r
  proof (cases r)
    case 0
    then show ?thesis using IH pn(1) by (simp add: out)
  next
    case (Suc k)
    then show ?thesis using IH that by (simp add: out)
  qed
  then show ?case using IH by (simp add: out)
qed

lemma solve_loop_length [simp]: "length (solve_loop A s its) = length its"
proof (induction "length its" arbitrary: its)
  case 0
  then show ?case by simp
next
  case (Suc n)
  then obtain cur rest where its: "its = cur # rest" by (cases its) auto
  show ?case
  proof (cases rest)
    case Nil
    then show ?thesis by (simp add: its solve_loop_Cons)
  next
    case (Cons nxt later)
    have "length (solve_loop A s (prepare_next A s (do_round A s cur) nxt # later)) =
          length (prepare_next A s (do_round A s cur) nxt # later)"
      using Suc(2) by (intro Suc(1)) (simp add: its Cons)
    then show ?thesis by (subst its, subst solve_loop_Cons) (simp add: its Cons)
  qed
qed

lemma llr_state_simps [simp]:
  "n_v (llr_state A s) = n_v s" "n_c (llr_state A s) = n_c s"
  "matrix (llr_state A s) = matrix s" "channel (llr_state A s) = channel s"
  "first_iteration (llr_state A s) = first_iteration s"
  "cursor (llr_state A s) = cursor s" "page (llr_state A s) = page s"
  "iterations (llr_state A s) = iterations s"
  by (simp_all add: llr_state_def)

lemma llr_state_nth: "v < n_v s \<Longrightarrow> channel_llr (llr_state A s) ! v = llr_of A s v"
  by (simp add: llr_state_def llr_of_def p_to_l_def)

lemma state_solve_eq:
  assumes "state_ok s"
  shows "state_solve A s =
           (case first_iteration s of
              [] \<Rightarrow> llr_state A s
            | first # rest \<Rightarrow>
                (llr_state A s)\<lparr>first_iteration :=
                   solve_loop A (llr_state A s) (first\<lparr>message_c_to_v := seed A s\<rparr> # rest)\<rparr>)"
proof -
  from assms have len: "length (channel_llr s) = n_v s" by (simp add: state_ok_def)
  show ?thesis
  proof (cases "first_iteration s")
    case Nil
    then show ?thesis by (simp add: state_solve_def llr_eq[OF len] llr_state_def)
  next
    case (Cons first rest)
    with assms have "dims2 (n_c s) (n_v s) (message_c_to_v first)"
      by (simp add: state_ok_def iteration_ok_def)
    then have "fold (\<lambda>c a. fold (\<lambda>v a. upd2 a c v (channel_llr (llr_state A s) ! v)) [0..<n_v s] a)
                 [0..<n_c s] (message_c_to_v first) =
               map (\<lambda>c. map (\<lambda>v. channel_llr (llr_state A s) ! v) [0..<n_v s]) [0..<n_c s]"
      by (rule fill2)
    moreover have "map (\<lambda>c. map (\<lambda>v. channel_llr (llr_state A s) ! v) [0..<n_v s]) [0..<n_c s] =
                   seed A s"
      by (simp add: seed_def llr_state_def)
    ultimately show ?thesis
      using Cons by (simp add: state_solve_def llr_eq[OF len] prepare_rows Let_def flip: llr_state_def)
  qed
qed

lemma fold_frame:
  assumes "\<And>x s. g (f x s) = g s"
  shows "g (fold f xs s) = g s"
  by (induction xs arbitrary: s) (simp_all add: assms)

lemma llr_loop_frame:
  fixes A :: "'a double_ops" and s :: "'a state"
  defines "s1 \<equiv> fold (\<lambda>i s. s\<lparr>channel_llr := (channel_llr s)[i := p_to_l A (channel s ! i)]\<rparr>)
                 [0..<n_v s] s"
  shows "cursor s1 = cursor s" "page s1 = page s" "iterations s1 = iterations s"
    "n_v s1 = n_v s" "n_c s1 = n_c s" "channel s1 = channel s" "matrix s1 = matrix s"
    "first_iteration s1 = first_iteration s"
  unfolding s1_def
  by (simp_all add: fold_frame[where g=cursor] fold_frame[where g=page]
      fold_frame[where g=iterations] fold_frame[where g=n_v] fold_frame[where g=n_c]
      fold_frame[where g=channel] fold_frame[where g=matrix]
      fold_frame[where g=first_iteration])

lemma state_solve_frame:
  "cursor (state_solve A s) = cursor s" "page (state_solve A s) = page s"
  "iterations (state_solve A s) = iterations s"
  "n_v (state_solve A s) = n_v s" "n_c (state_solve A s) = n_c s"
  "channel (state_solve A s) = channel s" "matrix (state_solve A s) = matrix s"
  "length (first_iteration (state_solve A s)) = length (first_iteration s)"
  unfolding state_solve_def Let_def
  by (simp_all add: llr_loop_frame split: list.split)

lemma fold_if_filter:
  "fold (\<lambda>i t. if P i then f i t else t) xs a = fold f (filter P xs) a"
  by (induction xs arbitrary: a) simp_all

lemma matrix_binary:
  "state_ok s \<Longrightarrow> c < n_c s \<Longrightarrow> v < n_v s \<Longrightarrow> matrix s ! c ! v = 0 \<or> matrix s ! c ! v = 1"
  unfolding state_ok_def dims2_def
  by (metis nth_mem)

lemma connected_iff:
  "state_ok s \<Longrightarrow> c < n_c s \<Longrightarrow> v < n_v s \<Longrightarrow> matrix s ! c ! v \<noteq> 0 \<longleftrightarrow> edge_connected (matrix s) c v"
  using matrix_binary[of s c v] by (auto simp: edge_connected_def)

lemma state_ok_llr_state [simp]: "state_ok s \<Longrightarrow> state_ok (llr_state A s)"
  by (simp add: state_ok_def llr_state_def)

lemma calc_v_to_c_spec:
  assumes "state_ok s" "c < n_c s"
  shows "calc_message_v_to_c A s it v c =
         spec_check_message A (matrix s) (n_v s) (\<lambda>v'. message_c_to_v it ! c ! v') c v"
proof -
  have "filter (\<lambda>i. i \<noteq> v \<and> matrix s ! c ! i \<noteq> 0) [0..<n_v s] =
        filter (\<lambda>i. i \<noteq> v \<and> edge_connected (matrix s) c i) [0..<n_v s]"
    by (rule filter_cong) (auto simp: connected_iff[OF assms])
  then show ?thesis
    by (simp add: calc_message_v_to_c_def spec_check_message_def fold_if_filter fold_map comp_def)
qed

lemma calc_c_to_v_spec:
  "calc_message_c_to_v A s it v c =
   spec_variable_message A (matrix s) (n_c s) (\<lambda>v. channel_llr s ! v) (message_v_to_c it) c v"
  by (simp add: calc_message_c_to_v_def spec_variable_message_def fold_if_filter fold_map
      comp_def edge_connected_def)

lemma belief_of_spec:
  assumes "state_ok s" "v < n_v s"
  shows "belief_of A s cm v = spec_belief A (matrix s) (n_c s) (\<lambda>v. channel_llr s ! v) cm v"
proof -
  have "filter (\<lambda>i. matrix s ! i ! v \<noteq> 0) [0..<n_c s] =
        filter (\<lambda>i. edge_connected (matrix s) i v) [0..<n_c s]"
    by (rule filter_cong) (auto simp: connected_iff[OF assms(1) _ assms(2)])
  then show ?thesis
    by (simp add: belief_of_def spec_belief_def fold_if_filter fold_map comp_def)
qed

lemma parity_of_spec:
  assumes "state_ok s" "c < n_c s"
  shows "parity_of s (\<lambda>v. cw ! v) (n_v s) c 0 = spec_syndrome (matrix s) (n_v s) cw c"
proof -
  have "filter (\<lambda>i. matrix s ! c ! i \<noteq> 0) [0..<n_v s] =
        filter (\<lambda>i. edge_connected (matrix s) c i) [0..<n_v s]"
    by (rule filter_cong) (auto simp: connected_iff[OF assms])
  then show ?thesis
    by (simp add: parity_of_def spec_syndrome_def fold_if_filter fold_map comp_def)
qed

lemma parity_of_cong:
  "(\<And>v. v < k \<Longrightarrow> bt v = bt' v) \<Longrightarrow> parity_of s bt k i p0 = parity_of s bt' k i p0"
  unfolding parity_of_def by (rule fold_cong) auto

lemma check_messages_cong:
  "message_c_to_v it' = message_c_to_v it \<Longrightarrow> check_messages A s it' = check_messages A s it"
  by (simp add: check_messages_def calc_v_to_c_cong[of it' it])

lemma do_round_fields:
  assumes "iteration_ok (n_c s) (n_v s) cur"
  shows "message_c_to_v (do_round A s cur) = message_c_to_v cur"
    and "message_v_to_c (do_round A s cur) = check_messages A s cur"
    and "l (do_round A s cur) = map (belief_of A s (check_messages A s cur)) [0..<n_v s]"
    and "codeword (do_round A s cur) =
           map (\<lambda>v. bit_of A (belief_of A s (check_messages A s cur) v)) [0..<n_v s]"
    and "parity (do_round A s cur) =
           map (\<lambda>i. parity_of s (\<lambda>v. bit_of A (belief_of A s (check_messages A s cur) v))
                                   (n_v s) i 0) [0..<n_c s]"
  by (simp_all add: do_round_eq[OF assms])

lemma do_round_cong:
  assumes "iteration_ok (n_c s) (n_v s) x" "iteration_ok (n_c s) (n_v s) y"
    and "message_c_to_v x = message_c_to_v y"
  shows "do_round A s x = do_round A s y"
  by (rule iteration.equality)
     (simp_all add: do_round_fields[OF assms(1)] do_round_fields[OF assms(2)] assms(3)
        check_messages_cong[OF assms(3)])

lemma do_round_idem:
  assumes "iteration_ok (n_c s) (n_v s) x"
  shows "do_round A s (do_round A s x) = do_round A s x"
  by (rule do_round_cong[OF do_round_ok[OF assms] assms]) (simp add: do_round_fields[OF assms])

lemma history:
  fixes A :: "'a double_ops" and s :: "'a state"
  assumes ok: "state_ok s" and r: "r < length (first_iteration s)"
  defines "s1 \<equiv> llr_state A s"
  defines "out \<equiv> first_iteration (state_solve A s)"
  shows "length out = length (first_iteration s)"
    and "iteration_ok (n_c s) (n_v s) (out ! r)"
    and "out ! r = do_round A s1 (out ! r)"
    and "message_c_to_v (out ! r) =
           (if r = 0 then seed A s else next_messages A s1 (out ! (r - 1)))"
proof -
  from r obtain first rest where its: "first_iteration s = first # rest"
    by (cases "first_iteration s") auto
  let ?f = "first\<lparr>message_c_to_v := seed A s\<rparr>"
  have out: "out = solve_loop A s1 (?f # rest)"
    unfolding out_def s1_def by (simp add: state_solve_eq[OF ok] its)
  from ok its have f0: "iteration_ok (n_c s) (n_v s) first"
    and rest: "\<forall>it \<in> set rest. iteration_ok (n_c s) (n_v s) it"
    by (simp_all add: state_ok_def)
  from f0 have f: "iteration_ok (n_c s1) (n_v s1) ?f"
    by (simp add: iteration_ok_def seed_def s1_def)
  from rest have rest1: "\<forall>it \<in> set rest. iteration_ok (n_c s1) (n_v s1) it"
    by (simp add: s1_def)
  note P = solve_loop_props[OF f rest1, of A, folded out]
  show "length out = length (first_iteration s)" using P by (simp add: its)
  have x: "\<exists>x. iteration_ok (n_c s1) (n_v s1) x \<and> out ! r = do_round A s1 x \<and>
             message_c_to_v x = (if r = 0 then seed A s else next_messages A s1 (out ! (r - 1)))"
  proof (cases r)
    case 0
    then show ?thesis using P f by (intro exI[of _ ?f]) simp
  next
    case (Suc k)
    with r its have k: "k < length rest" by simp
    then have "iteration_ok (n_c s1) (n_v s1) (rest ! k)" using rest1 by simp
    then have "iteration_ok (n_c s1) (n_v s1)
                 ((rest ! k)\<lparr>message_c_to_v := next_messages A s1 (out ! k)\<rparr>)"
      by (simp add: iteration_ok_def next_messages_def)
    then show ?thesis using P k Suc
      by (intro exI[of _ "(rest ! k)\<lparr>message_c_to_v := next_messages A s1 (out ! k)\<rparr>"]) simp
  qed
  then obtain x where x: "iteration_ok (n_c s1) (n_v s1) x" "out ! r = do_round A s1 x"
    "message_c_to_v x = (if r = 0 then seed A s else next_messages A s1 (out ! (r - 1)))"
    by blast
  show "iteration_ok (n_c s) (n_v s) (out ! r)"
    using do_round_ok[OF x(1), of A] x(2) by (simp add: s1_def)
  show "out ! r = do_round A s1 (out ! r)"
    using do_round_idem[OF x(1), of A] x(2) by simp
  show "message_c_to_v (out ! r) =
           (if r = 0 then seed A s else next_messages A s1 (out ! (r - 1)))"
    using do_round_fields(1)[OF x(1), of A] x(2,3) by simp
qed

lemma spec_check_message_cong:
  assumes "\<And>v'. v' < nv \<Longrightarrow> v' \<noteq> v \<Longrightarrow> edge_connected M c v' \<Longrightarrow> f v' = g v'"
  shows "spec_check_message A M nv f c v = spec_check_message A M nv g c v"
proof -
  have "map (\<lambda>v'. d_tanh A (d_div A (f v') (d_lit A 2)))
          (filter (\<lambda>v'. v' \<noteq> v \<and> edge_connected M c v') [0..<nv]) =
        map (\<lambda>v'. d_tanh A (d_div A (g v') (d_lit A 2)))
          (filter (\<lambda>v'. v' \<noteq> v \<and> edge_connected M c v') [0..<nv])"
    by (rule map_cong) (auto simp: assms)
  then show ?thesis unfolding spec_check_message_def by (simp only:)
qed

lemma spec_variable_message_cong:
  assumes "f v = g v"
  shows "spec_variable_message A M nc f cm c v = spec_variable_message A M nc g cm c v"
  by (simp add: spec_variable_message_def assms)

lemma spec_belief_cong:
  assumes "f v = g v"
  shows "spec_belief A M nc f cm v = spec_belief A M nc g cm v"
  by (simp add: spec_belief_def assms)

lemma incoming_eq:
  fixes A :: "'a double_ops" and s :: "'a state"
  assumes ok: "state_ok s" and r: "r < length (first_iteration s)"
    and c: "c < n_c s" and v: "v < n_v s"
  defines "out \<equiv> first_iteration (state_solve A s)"
  shows "message_c_to_v (out ! r) ! c ! v =
           (if r = 0 then llr_of A s v
            else spec_variable_message A (matrix s) (n_c s) (llr_of A s)
                   (message_v_to_c (out ! (r - 1))) c v)"
proof (cases "r = 0")
  case True
  then show ?thesis
    using history(4)[OF ok r, of A] c v
    by (simp add: out_def seed_def llr_of_def p_to_l_def)
next
  case False
  have "message_c_to_v (out ! r) ! c ! v =
          calc_message_c_to_v A (llr_state A s) (out ! (r - 1)) v c"
    using history(4)[OF ok r, of A] c v False by (simp add: out_def next_messages_def)
  also have "\<dots> = spec_variable_message A (matrix s) (n_c s) (llr_of A s)
                   (message_v_to_c (out ! (r - 1))) c v"
    unfolding calc_c_to_v_spec
    by (simp add: spec_variable_message_cong[of "\<lambda>v. channel_llr (llr_state A s) ! v" v "llr_of A s"]
          llr_state_nth[OF v])
  finally show ?thesis using False by simp
qed

lemma check_message_eq:
  fixes A :: "'a double_ops" and s :: "'a state"
  assumes ok: "state_ok s" and r: "r < length (first_iteration s)"
    and c: "c < n_c s" and v: "v < n_v s"
  defines "out \<equiv> first_iteration (state_solve A s)"
  shows "message_v_to_c (out ! r) ! c ! v =
           spec_check_message A (matrix s) (n_v s) (\<lambda>v'. message_c_to_v (out ! r) ! c ! v') c v"
proof -
  have ok1: "state_ok (llr_state A s)" using ok by simp
  have "message_v_to_c (out ! r) = check_messages A (llr_state A s) (out ! r)"
    using history(2,3)[OF ok r, of A] do_round_fields(2)[of "llr_state A s" "out ! r" A]
    by (simp add: out_def)
  then have "message_v_to_c (out ! r) ! c ! v = calc_message_v_to_c A (llr_state A s) (out ! r) v c"
    using c v by (simp add: check_messages_def)
  then show ?thesis
    using calc_v_to_c_spec[OF ok1, of c A "out ! r" v] c by simp
qed

lemma calc_c_to_v_exclusion:
  assumes "dims2 (n_c s) (n_v s) (message_v_to_c it)" "c < n_c s" "v < n_v s"
  shows "calc_message_c_to_v A s (it\<lparr>message_v_to_c := upd2 (message_v_to_c it) c v x\<rparr>) v c =
         calc_message_c_to_v A s it v c"
  unfolding calc_message_c_to_v_def
  by (rule fold_cong) (auto simp: nth_upd2[OF assms] fun_eq_iff)

lemma calc_v_to_c_exclusion:
  assumes "dims2 (n_c s) (n_v s) (message_c_to_v it)" "c < n_c s" "v < n_v s"
  shows "calc_message_v_to_c A s (it\<lparr>message_c_to_v := upd2 (message_c_to_v it) c v x\<rparr>) v c =
         calc_message_v_to_c A s it v c"
proof -
  have "fold (\<lambda>i t. if i \<noteq> v \<and> matrix s ! c ! i \<noteq> 0
          then d_mul A t (d_tanh A (d_div A (upd2 (message_c_to_v it) c v x ! c ! i) (d_lit A 2)))
          else t) [0..<n_v s] (d_lit A 1) =
        fold (\<lambda>i t. if i \<noteq> v \<and> matrix s ! c ! i \<noteq> 0
          then d_mul A t (d_tanh A (d_div A (message_c_to_v it ! c ! i) (d_lit A 2)))
          else t) [0..<n_v s] (d_lit A 1)"
    by (rule fold_cong) (auto simp: nth_upd2[OF assms] fun_eq_iff)
  then show ?thesis by (simp add: calc_message_v_to_c_def cong: if_cong)
qed

lemma solve_loop_single:
  "solve_loop A s [cur] = [belief_pass A s (clear_parity s (check_pass A s cur))]"
  by (simp add: solve_loop_Cons do_round_def)

lemma belief_eq:
  fixes A :: "'a double_ops" and s :: "'a state"
  assumes "state_ok s" and "r < length (first_iteration s)" and "v < n_v s"
  defines "out \<equiv> first_iteration (state_solve A s)"
  shows "l (out ! r) ! v =
           spec_belief A (matrix s) (n_c s) (llr_of A s) (message_v_to_c (out ! r)) v"
    and "codeword (out ! r) ! v = bit_of A (l (out ! r) ! v)"
proof -
  let ?s1 = "llr_state A s"
  have ok1: "state_ok ?s1" using assms(1) by simp
  have okr: "iteration_ok (n_c ?s1) (n_v ?s1) (out ! r)"
    using history(2)[OF assms(1,2), of A] by (simp add: out_def)
  have fp: "out ! r = do_round A ?s1 (out ! r)"
    using history(3)[OF assms(1,2), of A] by (simp add: out_def)
  have cm: "message_v_to_c (out ! r) = check_messages A ?s1 (out ! r)"
    using do_round_fields(2)[OF okr, of A] fp by simp
  have "l (out ! r) ! v = belief_of A ?s1 (message_v_to_c (out ! r)) v"
    using do_round_fields(3)[OF okr, of A] fp cm assms(3) by simp
  also have "\<dots> = spec_belief A (matrix s) (n_c s) (llr_of A s) (message_v_to_c (out ! r)) v"
    using belief_of_spec[OF ok1, of v A] assms(3)
    by (simp add: spec_belief_cong[of "\<lambda>v. channel_llr ?s1 ! v" v "llr_of A s"] llr_state_nth)
  finally show "l (out ! r) ! v =
           spec_belief A (matrix s) (n_c s) (llr_of A s) (message_v_to_c (out ! r)) v" .
  show "codeword (out ! r) ! v = bit_of A (l (out ! r) ! v)"
    using do_round_fields(3,4)[OF okr, of A] fp assms(3) by simp
qed

lemma parity_eq:
  fixes A :: "'a double_ops" and s :: "'a state"
  assumes "state_ok s" and "r < length (first_iteration s)" and c: "c < n_c s"
  defines "out \<equiv> first_iteration (state_solve A s)"
  shows "parity (out ! r) ! c = spec_syndrome (matrix s) (n_v s) (codeword (out ! r)) c"
proof -
  let ?s1 = "llr_state A s"
  have ok1: "state_ok ?s1" using assms(1) by simp
  have okr: "iteration_ok (n_c ?s1) (n_v ?s1) (out ! r)"
    using history(2)[OF assms(1,2), of A] by (simp add: out_def)
  have fp: "out ! r = do_round A ?s1 (out ! r)"
    using history(3)[OF assms(1,2), of A] by (simp add: out_def)
  let ?bt = "\<lambda>v. bit_of A (belief_of A ?s1 (check_messages A ?s1 (out ! r)) v)"
  have "parity (out ! r) ! c = parity_of ?s1 ?bt (n_v s) c 0"
    using do_round_fields(5)[OF okr, of A] fp c by simp
  also have "\<dots> = parity_of ?s1 (\<lambda>v. codeword (out ! r) ! v) (n_v s) c 0"
    by (rule parity_of_cong) (use do_round_fields(4)[OF okr, of A] fp in simp)
  also have "\<dots> = spec_syndrome (matrix s) (n_v s) (codeword (out ! r)) c"
    using parity_of_spec[OF ok1, of c] c by simp
  finally show ?thesis .
qed

lemma display_valid_iff:
  "display_valid s it = (if \<forall>i<n_c s. parity it ! i = 0 then 1 else 0)"
proof -
  have "fold (\<lambda>i valid. if parity it ! i \<noteq> 0 then 0 else valid) [0..<n] (1::int) =
        (if \<forall>i<n. parity it ! i = 0 then 1 else 0)" for n
    by (induction n) (auto simp: less_Suc_eq)
  then show ?thesis by (simp add: display_valid_def)
qed

lemma same_code_passes:
  assumes "same_code s s'"
  shows "check_pass A s = check_pass A s'"
    and "clear_parity s = clear_parity s'"
    and "belief_pass A s = belief_pass A s'"
    and "prepare_next A s = prepare_next A s'"
proof -
  from assms have e: "n_v s = n_v s'" "n_c s = n_c s'" "matrix s = matrix s'"
    "channel_llr s = channel_llr s'" by (simp_all add: same_code_def)
  have c1: "calc_message_v_to_c A s = calc_message_v_to_c A s'"
    by (simp add: fun_eq_iff calc_message_v_to_c_def e)
  show "check_pass A s = check_pass A s'"
    by (simp add: fun_eq_iff check_pass_def e c1)
  show "clear_parity s = clear_parity s'"
    by (simp add: fun_eq_iff clear_parity_def e)
  have b1: "belief_step A s = belief_step A s'"
    by (simp add: fun_eq_iff belief_step_def e)
  show "belief_pass A s = belief_pass A s'"
    by (simp add: fun_eq_iff belief_pass_def e b1)
  have c2: "calc_message_c_to_v A s = calc_message_c_to_v A s'"
    by (simp add: fun_eq_iff calc_message_c_to_v_def e)
  show "prepare_next A s = prepare_next A s'"
    by (simp add: fun_eq_iff prepare_next_def e c2)
qed

lemma same_code_do_round: "same_code s s' \<Longrightarrow> do_round A s = do_round A s'"
  by (simp add: fun_eq_iff do_round_def same_code_passes)

lemma same_code_solve_loop:
  assumes "same_code s s'"
  shows "solve_loop A s its = solve_loop A s' its"
proof (induction "length its" arbitrary: its)
  case 0
  then show ?case by simp
next
  case (Suc n)
  then obtain cur rest where its: "its = cur # rest" by (cases its) auto
  have "solve_loop A s (case rest of [] \<Rightarrow> []
          | nxt # later \<Rightarrow> prepare_next A s' (do_round A s' cur) nxt # later) =
        solve_loop A s' (case rest of [] \<Rightarrow> []
          | nxt # later \<Rightarrow> prepare_next A s' (do_round A s' cur) nxt # later)"
    using Suc(2) by (intro Suc(1)) (simp add: its split: list.split)
  then show ?case
    unfolding its solve_loop_Cons
    by (simp add: same_code_do_round[OF assms] same_code_passes(4)[OF assms]
          cong: list.case_cong)
qed

lemma solve_loop_junk:
  assumes "iteration_ok (n_c s) (n_v s) cur" "iteration_ok (n_c s) (n_v s) cur'"
    and "\<forall>it \<in> set rest. iteration_ok (n_c s) (n_v s) it"
    and "\<forall>it \<in> set rest'. iteration_ok (n_c s) (n_v s) it"
    and "length rest = length rest'"
    and "message_c_to_v cur = message_c_to_v cur'"
  shows "solve_loop A s (cur # rest) = solve_loop A s (cur' # rest')"
  using assms
proof (induction rest arbitrary: rest' cur cur')
  case Nil
  then have "do_round A s cur = do_round A s cur'"
    by (intro do_round_cong) simp_all
  with Nil show ?case by (simp add: solve_loop_Cons)
next
  case (Cons nxt later)
  then obtain nxt' later' where r': "rest' = nxt' # later'" by (cases rest') auto
  have d: "do_round A s cur = do_round A s cur'"
    using Cons.prems by (intro do_round_cong) simp_all
  have ok: "iteration_ok (n_c s) (n_v s) nxt" "iteration_ok (n_c s) (n_v s) nxt'"
    using Cons.prems r' by simp_all
  have "solve_loop A s (prepare_next A s (do_round A s cur') nxt # later) =
        solve_loop A s (prepare_next A s (do_round A s cur') nxt' # later')"
    using Cons.prems r' prepare_next_ok[OF ok(1), of A] prepare_next_ok[OF ok(2), of A]
    by (intro Cons.IH) simp_all
  then show ?case
    unfolding r' by (subst (1 2) solve_loop_Cons) (simp add: d)
qed

lemma fill_col:
  assumes "dims2 nc nv a" "v < nv" "k \<le> nc"
  shows "dims2 nc nv (fold (\<lambda>c a. upd2 a c v (f c)) [0..<k] a) \<and>
         (\<forall>c' v'. c' < nc \<longrightarrow> v' < nv \<longrightarrow>
            fold (\<lambda>c a. upd2 a c v (f c)) [0..<k] a ! c' ! v' =
              (if v' = v \<and> c' < k then f c' else a ! c' ! v'))"
  using assms(3)
proof (induction k)
  case 0
  then show ?case using assms(1) by simp
next
  case (Suc k)
  then have IH: "dims2 nc nv (fold (\<lambda>c a. upd2 a c v (f c)) [0..<k] a)"
    "\<And>c' v'. c' < nc \<Longrightarrow> v' < nv \<Longrightarrow>
            fold (\<lambda>c a. upd2 a c v (f c)) [0..<k] a ! c' ! v' =
              (if v' = v \<and> c' < k then f c' else a ! c' ! v')"
    and k: "k < nc" by auto
  show ?case
    using IH k assms(2) by (auto simp: nth_upd2 less_Suc_eq)
qed

lemma fill_cols:
  assumes "dims2 nc nv a" "k \<le> nv"
  shows "dims2 nc nv (fold (\<lambda>v a. fold (\<lambda>c a. upd2 a c v (f c v)) [0..<nc] a) [0..<k] a) \<and>
         (\<forall>c' v'. c' < nc \<longrightarrow> v' < nv \<longrightarrow>
            fold (\<lambda>v a. fold (\<lambda>c a. upd2 a c v (f c v)) [0..<nc] a) [0..<k] a ! c' ! v' =
              (if v' < k then f c' v' else a ! c' ! v'))"
  using assms(2)
proof (induction k)
  case 0
  then show ?case using assms(1) by simp
next
  case (Suc k)
  let ?b = "fold (\<lambda>v a. fold (\<lambda>c a. upd2 a c v (f c v)) [0..<nc] a) [0..<k] a"
  from Suc have IH: "dims2 nc nv ?b"
    "\<And>c' v'. c' < nc \<Longrightarrow> v' < nv \<Longrightarrow> ?b ! c' ! v' = (if v' < k then f c' v' else a ! c' ! v')"
    and k: "k < nv" by auto
  from fill_col[OF IH(1) k order_refl, of "\<lambda>c. f c k"]
  show ?case using IH(2) k by (auto simp: less_Suc_eq)
qed

lemma fill2_by_columns:
  assumes "dims2 nc nv a"
  shows "fold (\<lambda>v a. fold (\<lambda>c a. upd2 a c v (f c v)) [0..<nc] a) [0..<nv] a =
         map (\<lambda>c. map (f c) [0..<nv]) [0..<nc]"
  using fill_cols[OF assms order_refl, of f]
  by (intro dims2_eqI[of nc nv]) auto

lemma channel_fold:
  "fold (\<lambda>i s. if P i then s\<lparr>channel := (channel s)[i := f i]\<rparr>
                else s\<lparr>channel := (channel s)[i := g i]\<rparr>) xs s =
   s\<lparr>channel := fold (\<lambda>i a. a[i := (if P i then f i else g i)]) xs (channel s)\<rparr>"
  by (induction xs arbitrary: s) simp_all

lemma matrix_row_fold:
  "fold (\<lambda>j s. s\<lparr>matrix := upd2 (matrix s) j i (f j i)\<rparr>) xs s =
   s\<lparr>matrix := fold (\<lambda>j a. upd2 a j i (f j i)) xs (matrix s)\<rparr>"
  by (induction xs arbitrary: s) simp_all

lemma matrix_fold:
  "fold (\<lambda>i s. fold (\<lambda>j s. s\<lparr>matrix := upd2 (matrix s) j i (f j i)\<rparr>) ys s) xs s =
   s\<lparr>matrix := fold (\<lambda>i a. fold (\<lambda>j a. upd2 a j i (f j i)) ys a) xs (matrix s)\<rparr>"
  by (induction xs arbitrary: s) (simp_all add: matrix_row_fold)

lemma new_iteration_ok: "iteration_ok nc nv (new_iteration G nc nv)"
  by (simp add: iteration_ok_def new_iteration_def dims2_def malloc_double_def malloc_byte_def)

lemma add_iteration_fold:
  "fold (\<lambda>i s. add_iteration (GI i) s) xs s =
   s\<lparr>first_iteration := rev (map (\<lambda>i. new_iteration (GI i) (n_c s) (n_v s)) xs) @ first_iteration s\<rparr>"
  by (induction xs arbitrary: s) (simp_all add: add_iteration_def new_iteration_def)

lemma matrix_const_dims: "dims2 4 6 matrix_const"
  by (simp add: dims2_def matrix_const_def)

lemma matrix_const_map:
  "map (\<lambda>c. map (\<lambda>v. matrix_const ! c ! v) [0..<6]) [0..<4] = matrix_const"
  by (intro dims2_eqI[of 4 6] matrix_const_dims) (simp_all add: dims2_def)

lemma state_new_eq:
  "state_new A n_i G GI =
     \<lparr>cursor = 0, page = 0, iterations = n_i, n_v = 6, n_c = 4,
      channel = map (\<lambda>i. if i < length initial_r then l_to_p A (d_lit A (initial_r ! i))
                          else d_lit A (1 / 2)) [0..<6],
      channel_llr = malloc_double G 1 6,
      matrix = matrix_const,
      first_iteration = rev (map (\<lambda>i. new_iteration (GI i) 4 6) [0..<nat n_i])\<rparr>"
proof -
  have nv: "length (matrix_const ! 0) = 6" and nc: "length matrix_const = 4"
    by (simp_all add: matrix_const_def)
  have d: "dims2 4 6 (map (\<lambda>i. malloc_byte G i 6) [0..<4])"
    by (simp add: dims2_def malloc_byte_def)
  show ?thesis
    unfolding state_new_def nv nc Let_def channel_fold matrix_fold add_iteration_fold
    by (simp add: fill1[of _ 6] malloc_double_def fill2_by_columns[OF d] matrix_const_map)
qed

lemma state_new_ok: "state_ok (state_new A n_i G GI)"
proof -
  have "\<forall>row \<in> set matrix_const. \<forall>x \<in> set row. x = 0 \<or> x = 1"
    by (simp add: matrix_const_def)
  then show ?thesis
    unfolding state_new_eq state_ok_def
    by (auto simp: matrix_const_dims malloc_double_def new_iteration_ok)
qed

lemma state_solve_ok:
  assumes "state_ok s"
  shows "state_ok (state_solve A s)"
proof -
  have "iteration_ok (n_c s) (n_v s) it" if "it \<in> set (first_iteration (state_solve A s))" for it
  proof -
    from that obtain r where r: "r < length (first_iteration (state_solve A s))"
      and it: "it = first_iteration (state_solve A s) ! r"
      by (auto simp: in_set_conv_nth)
    from r have "r < length (first_iteration s)" by (simp add: state_solve_frame)
    from history(2)[OF assms this, of A] it show ?thesis by simp
  qed
  moreover have "length (channel_llr (state_solve A s)) = n_v s"
    by (simp add: state_solve_eq[OF assms] llr_state_def split: list.split)
  ultimately show ?thesis
    using assms by (simp add: state_ok_def state_solve_frame)
qed

lemma state_solve_det:
  assumes "state_ok s1" "state_ok s2"
    and "n_v s1 = n_v s2" "n_c s1 = n_c s2" "matrix s1 = matrix s2" "channel s1 = channel s2"
    and "length (first_iteration s1) = length (first_iteration s2)"
  shows "first_iteration (state_solve A s1) = first_iteration (state_solve A s2)"
    and "channel_llr (state_solve A s1) = channel_llr (state_solve A s2)"
proof -
  have llr: "channel_llr (llr_state A s1) = channel_llr (llr_state A s2)"
    by (simp add: llr_state_def assms)
  then have sc: "same_code (llr_state A s1) (llr_state A s2)"
    by (simp add: same_code_def assms)
  have sd: "seed A s1 = seed A s2" by (simp add: seed_def assms)
  show "channel_llr (state_solve A s1) = channel_llr (state_solve A s2)"
    using llr by (simp add: state_solve_eq assms(1,2) split: list.split)
  show "first_iteration (state_solve A s1) = first_iteration (state_solve A s2)"
  proof (cases "first_iteration s1")
    case Nil
    with assms(7) show ?thesis by (simp add: state_solve_eq assms(1,2))
  next
    case (Cons f1 r1)
    with assms(7) obtain f2 r2 where c2: "first_iteration s2 = f2 # r2"
      by (cases "first_iteration s2") auto
    from assms(1) Cons have ok1: "iteration_ok (n_c s2) (n_v s2) f1"
      "\<forall>it \<in> set r1. iteration_ok (n_c s2) (n_v s2) it"
      by (simp_all add: state_ok_def assms(3,4))
    from assms(2) c2 have ok2: "iteration_ok (n_c s2) (n_v s2) f2"
      "\<forall>it \<in> set r2. iteration_ok (n_c s2) (n_v s2) it"
      by (simp_all add: state_ok_def)
    have "solve_loop A (llr_state A s1) (f1\<lparr>message_c_to_v := seed A s1\<rparr> # r1) =
          solve_loop A (llr_state A s2) (f1\<lparr>message_c_to_v := seed A s1\<rparr> # r1)"
      by (rule same_code_solve_loop[OF sc])
    also have "\<dots> = solve_loop A (llr_state A s2) (f2\<lparr>message_c_to_v := seed A s2\<rparr> # r2)"
    proof -
      have "dims2 (n_c s2) (n_v s2) (seed A s2)" by (simp add: seed_def)
      then show ?thesis
        using ok1 ok2 assms(7) Cons c2
        by (intro solve_loop_junk) (simp_all add: iteration_ok_def sd)
    qed
    finally show ?thesis
      by (simp add: state_solve_eq assms(1,2) Cons c2)
  qed
qed

lemma same_results_refl: "same_results s x x"
  by (simp add: same_results_def edge_eq_def)

lemma check_messages_edge:
  assumes "edge_eq s (message_c_to_v x) (message_c_to_v y)"
  shows "check_messages A s x = check_messages A s y"
proof -
  have "calc_message_v_to_c A s x v c = calc_message_v_to_c A s y v c" if "c < n_c s" for c v
  proof -
    have "fold (\<lambda>i t. if i \<noteq> v \<and> matrix s ! c ! i \<noteq> 0
            then d_mul A t (d_tanh A (d_div A (message_c_to_v x ! c ! i) (d_lit A 2)))
            else t) [0..<n_v s] (d_lit A 1) =
          fold (\<lambda>i t. if i \<noteq> v \<and> matrix s ! c ! i \<noteq> 0
            then d_mul A t (d_tanh A (d_div A (message_c_to_v y ! c ! i) (d_lit A 2)))
            else t) [0..<n_v s] (d_lit A 1)"
      using assms that by (intro fold_cong refl) (auto simp: edge_eq_def fun_eq_iff)
    then show ?thesis by (simp add: calc_message_v_to_c_def)
  qed
  then show ?thesis by (simp add: check_messages_def)
qed

lemma belief_of_edge:
  assumes "edge_eq s a b" "v < n_v s"
  shows "belief_of A s a v = belief_of A s b v"
  unfolding belief_of_def
  using assms by (intro fold_cong refl) (auto simp: edge_eq_def fun_eq_iff)

lemma next_messages_edge:
  assumes "edge_eq s (message_v_to_c x) (message_v_to_c y)"
  shows "next_messages A s x = next_messages A s y"
proof -
  have "calc_message_c_to_v A s x v c = calc_message_c_to_v A s y v c" if "v < n_v s" for c v
    unfolding calc_message_c_to_v_def
    using assms that by (intro fold_cong refl) (auto simp: edge_eq_def fun_eq_iff)
  then show ?thesis by (simp add: next_messages_def)
qed

lemma finish_eq:
  assumes "iteration_ok (n_c s) (n_v s) cur"
  shows "belief_pass A s (clear_parity s cur) =
         cur\<lparr>l := map (belief_of A s (message_v_to_c cur)) [0..<n_v s],
             codeword := map (\<lambda>v. bit_of A (belief_of A s (message_v_to_c cur) v)) [0..<n_v s],
             parity := map (\<lambda>i. parity_of s (\<lambda>v. bit_of A (belief_of A s (message_v_to_c cur) v))
                                   (n_v s) i 0) [0..<n_c s]\<rparr>"
proof -
  from assms have len: "length (l cur) = n_v s" "length (codeword cur) = n_v s"
    "length (parity cur) = n_c s"
    by (simp_all add: iteration_ok_def)
  show ?thesis
    by (subst clear_parity_eq, simp add: len, subst belief_pass_eq) (simp_all add: len)
qed

lemma round_tail_eq:
  "round_tail A s cur rest =
     belief_pass A s (clear_parity s cur) #
     solve_loop A s (case rest of [] \<Rightarrow> []
       | nxt # later \<Rightarrow> prepare_next A s (belief_pass A s (clear_parity s cur)) nxt # later)"
  by (simp add: round_tail.simps Let_def)

lemma perturbed_tail:
  assumes "\<forall>it \<in> set rest. iteration_ok (n_c s) (n_v s) it"
    and "same_results s x y"
  shows "list_all2 (same_results s)
           (x # solve_loop A s (case rest of [] \<Rightarrow> [] | nxt # later \<Rightarrow> prepare_next A s x nxt # later))
           (y # solve_loop A s (case rest of [] \<Rightarrow> [] | nxt # later \<Rightarrow> prepare_next A s y nxt # later))"
proof -
  have "prepare_next A s x nxt = prepare_next A s y nxt" if "iteration_ok (n_c s) (n_v s) nxt" for nxt
    using next_messages_edge[of s x y A] assms(2) prepare_next_ok(1)[OF that, of A]
    by (simp add: same_results_def)
  then have "(case rest of [] \<Rightarrow> [] | nxt # later \<Rightarrow> prepare_next A s x nxt # later) =
             (case rest of [] \<Rightarrow> [] | nxt # later \<Rightarrow> prepare_next A s y nxt # later)"
    using assms(1) by (cases rest) simp_all
  then show ?thesis
    using assms(2) by (simp add: list_all2_refl same_results_refl)
qed

lemma real_ops_simps [simp]:
  "d_lit real_ops q = of_rat q" "d_add real_ops = (+)" "d_sub real_ops = (-)"
  "d_mul real_ops = (*)" "d_div real_ops = (/)" "d_less real_ops = (<)"
  "d_exp real_ops = exp" "d_log real_ops = ln" "d_tanh real_ops = tanh"
  "d_floor real_ops x = of_int \<lfloor>x\<rfloor>"
  by (simp_all add: real_ops_def)

lemma nudge_KEY_DOWN_real:
  "nudge_KEY_DOWN real_ops p =
     (if real_of_int \<lfloor>p * 100\<rfloor> / 100 < 99 / 100 then real_of_int \<lfloor>p * 100\<rfloor> / 100 + 1 / 100
      else 99 / 100)"
  by (simp add: nudge_KEY_DOWN_def Let_def of_rat_divide)

lemma nudge_KEY_UP_real:
  "nudge_KEY_UP real_ops p =
     (if 1 / 100 < real_of_int \<lfloor>p * 100\<rfloor> / 100 then real_of_int \<lfloor>p * 100\<rfloor> / 100 - 1 / 100
      else 1 / 100)"
  by (simp add: nudge_KEY_UP_def Let_def of_rat_divide)

lemma nudge_exact:
  fixes p :: real
  assumes "0 \<le> p" and "p \<le> 1"
  shows "nudge_KEY_DOWN real_ops p =
           max (1 / 100) (min (99 / 100) (real_of_int \<lfloor>p * 100\<rfloor> / 100 + 1 / 100)) \<and>
         nudge_KEY_UP real_ops p =
           max (1 / 100) (min (99 / 100) (real_of_int \<lfloor>p * 100\<rfloor> / 100 - 1 / 100)) \<and>
         nudge_KEY_DOWN real_ops (99 / 100) = 99 / 100 \<and>
         nudge_KEY_UP real_ops (1 / 100) = 1 / 100 \<and>
         nudge_KEY_DOWN real_ops (567 / 1000) = 57 / 100 \<and>
         nudge_KEY_DOWN real_ops (567 / 1000) \<noteq> 577 / 1000 \<and>
         channel (snd (process_keys real_ops KEY_DOWN s)) =
           (channel s)[nat (cursor s) := nudge_KEY_DOWN real_ops (channel s ! nat (cursor s))] \<and>
         channel (snd (process_keys real_ops KEY_UP s)) =
           (channel s)[nat (cursor s) := nudge_KEY_UP real_ops (channel s ! nat (cursor s))]"
proof (intro conjI)
  define n where "n = \<lfloor>p * 100\<rfloor>"
  have n0: "0 \<le> n" using assms(1) by (simp add: n_def)
  have "p * 100 \<le> 100" using assms(2) by simp
  then have n1: "n \<le> 100" unfolding n_def by (simp add: floor_le_iff)
  show "nudge_KEY_DOWN real_ops p =
           max (1 / 100) (min (99 / 100) (real_of_int \<lfloor>p * 100\<rfloor> / 100 + 1 / 100))"
    unfolding nudge_KEY_DOWN_real n_def[symmetric] using n0 n1 by (auto simp: max_def min_def)
  show "nudge_KEY_UP real_ops p =
           max (1 / 100) (min (99 / 100) (real_of_int \<lfloor>p * 100\<rfloor> / 100 - 1 / 100))"
    unfolding nudge_KEY_UP_real n_def[symmetric] using n0 n1 by (auto simp: max_def min_def)
  show "nudge_KEY_DOWN real_ops (99 / 100) = 99 / 100"
    by (simp add: nudge_KEY_DOWN_real)
  show "nudge_KEY_UP real_ops (1 / 100) = 1 / 100"
    by (simp add: nudge_KEY_UP_real)
  have f: "\<lfloor>(567 / 1000 :: real) * 100\<rfloor> = 56" by (simp add: floor_eq_iff)
  show "nudge_KEY_DOWN real_ops (567 / 1000) = 57 / 100"
    unfolding nudge_KEY_DOWN_real f by simp
  then show "nudge_KEY_DOWN real_ops (567 / 1000) \<noteq> 577 / 1000" by simp
  show "channel (snd (process_keys real_ops KEY_DOWN s)) =
           (channel s)[nat (cursor s) := nudge_KEY_DOWN real_ops (channel s ! nat (cursor s))]"
    by (simp add: state_solve_frame)
  show "channel (snd (process_keys real_ops KEY_UP s)) =
           (channel s)[nat (cursor s) := nudge_KEY_UP real_ops (channel s ! nat (cursor s))]"
    by (simp add: state_solve_frame)
qed

lemma main_state_facts:
  "state_ok main_state" "n_v main_state = 6" "n_c main_state = 4"
  "matrix main_state = matrix_const" "length (first_iteration main_state) = 8"
  "cursor main_state = 0"
  by (simp_all add: main_state_def state_new_ok) (simp_all add: state_new_eq N_ITERATIONS_def)

lemma main_state'_facts:
  "state_ok main_state'" "n_v main_state' = 6" "n_c main_state' = 4"
  "matrix main_state' = matrix_const" "length (first_iteration main_state') = 8"
  "channel main_state' = channel main_state"
  by (simp_all add: main_state'_def main_state_def state_new_ok)
     (simp_all add: state_new_eq N_ITERATIONS_def)

lemma edge_0_0: "edge_connected matrix_const 0 0"
  by (simp add: edge_connected_def matrix_const_def)

subsection \<open>The prior keys in binary64 arithmetic\<close>

lemma nudge_KEY_DOWN_binary64:
  "nudge_KEY_DOWN (binary64_ops E L T) p = nudge_up64 p"
  by (simp add: nudge_KEY_DOWN_def binary64_ops_def nudge_up64_def cong: if_cong)

lemma binary64_058: "binary64 (58 / 100) = 5224175567749775 / 2 ^ 53"
  by code_simp

lemma binary64_057: "binary64 (57 / 100) = 5134103575202365 / 2 ^ 53"
  by code_simp

lemma nudge_up64_058: "nudge_up64 (binary64 (58 / 100)) = binary64 (58 / 100)"
  by code_simp

lemma nudge_up64_0567:
  "nudge_up64 (binary64 (567 / 1000)) = binary64 (57 / 100) + 1 / 2 ^ 53"
  "nudge_up64 (nudge_up64 (binary64 (567 / 1000))) = binary64 (58 / 100)"
  by code_simp+

subsection \<open>The example run of \<^verbatim>\<open>main\<close>\<close>

lemma half_tanh_bounds: "- 1 < half_tanh x" "half_tanh x < 1"
  using tanh_real_gt_neg1[of "x / 2"] tanh_real_lt_1[of "x / 2"] by (simp_all add: half_tanh_def)

lemma half_tanh_neg_iff: "half_tanh x < 0 \<longleftrightarrow> x < 0"
  by (simp add: half_tanh_def)

lemma half_tanh_add: "half_tanh (x + y) = oplus (half_tanh x) (half_tanh y)"
proof -
  have "cosh (x / 2) \<noteq> 0" "cosh (y / 2) \<noteq> 0"
    using cosh_real_pos[of "x / 2"] cosh_real_pos[of "y / 2"] by simp_all
  then have "tanh (x / 2 + y / 2) =
               (tanh (x / 2) + tanh (y / 2)) / (1 + tanh (x / 2) * tanh (y / 2))"
    by (rule tanh_add)
  then show ?thesis by (simp add: half_tanh_def oplus_def add_divide_distrib)
qed

lemma half_tanh_exp: "half_tanh x = (exp x - 1) / (exp x + 1)"
proof -
  define e where "e = exp x"
  have e: "0 < e" by (simp add: e_def)
  have "tanh (x / 2) = (1 - inverse e) / (1 + inverse e)"
    by (simp add: tanh_real_altdef exp_minus e_def)
  also have "\<dots> = ((e - 1) / e) / ((e + 1) / e)"
    using e by (simp add: field_simps)
  also have "\<dots> = (e - 1) / (e + 1)"
    using e by simp
  finally show ?thesis by (simp add: half_tanh_def e_def)
qed

lemma half_tanh_check:
  assumes "- 1 < t" "t < 1"
  shows "half_tanh (ln ((1 + t) / (1 - t))) = t"
proof -
  have pos: "0 < (1 + t) / (1 - t)" using assms by simp
  have "half_tanh (ln ((1 + t) / (1 - t))) = ((1 + t) / (1 - t) - 1) / ((1 + t) / (1 - t) + 1)"
    by (simp add: half_tanh_exp exp_ln[OF pos])
  also have "\<dots> = t" using assms by (simp add: field_simps)
  finally show ?thesis .
qed

lemma abs_mult_less_1:
  fixes x y :: real
  assumes "\<bar>x\<bar> < 1" "\<bar>y\<bar> < 1"
  shows "\<bar>x * y\<bar> < 1"
proof -
  have "\<bar>x\<bar> * \<bar>y\<bar> < 1 * 1"
    using assms by (intro mult_strict_mono') simp_all
  then show ?thesis by (simp add: abs_mult)
qed

lemma oplus_denominator:
  fixes x y :: real
  assumes "\<bar>x\<bar> < 1" "\<bar>y\<bar> < 1"
  shows "0 < 1 + x * y"
  using abs_mult_less_1[OF assms] by (simp add: abs_less_iff)

lemma oplus_bounds:
  assumes "\<bar>x\<bar> < 1" "\<bar>y\<bar> < 1"
  shows "\<bar>oplus x y\<bar> < 1"
proof -
  note d = oplus_denominator[OF assms]
  have "0 < (1 + x) * (1 + y)" "0 < (1 - x) * (1 - y)"
    using assms by (simp_all add: abs_less_iff)
  then have "- (1 + x * y) < x + y" "x + y < 1 + x * y" by (simp_all add: algebra_simps)
  then have "- 1 < oplus x y" "oplus x y < 1"
    using d by (simp_all add: oplus_def field_simps)
  then show ?thesis by (simp add: abs_less_iff)
qed

lemma oplus_commute: "oplus a b = oplus b a"
  by (simp add: oplus_def add.commute mult.commute)

lemma oplus_mono_left:
  assumes "\<bar>a\<bar> < 1" "\<bar>a'\<bar> < 1" "\<bar>b\<bar> < 1" "a \<le> a'"
  shows "oplus a b \<le> oplus a' b"
proof -
  have "\<bar>b * b\<bar> < 1" by (rule abs_mult_less_1[OF assms(3,3)])
  then have b2: "0 \<le> 1 - b * b" by (simp add: abs_less_iff)
  note d = oplus_denominator[OF assms(1,3)] oplus_denominator[OF assms(2,3)]
  have "(a + b) * (1 + a' * b) - (a' + b) * (1 + a * b) = (a - a') * (1 - b * b)"
    by (simp add: algebra_simps)
  moreover have "(a - a') * (1 - b * b) \<le> 0"
    using assms(4) b2 by (simp add: mult_nonpos_nonneg)
  ultimately have "(a + b) * (1 + a' * b) \<le> (a' + b) * (1 + a * b)" by simp
  then show ?thesis using d by (simp add: oplus_def field_simps)
qed

lemma oplus_mono:
  assumes "\<bar>x\<bar> < 1" "\<bar>x'\<bar> < 1" "\<bar>y\<bar> < 1" "\<bar>y'\<bar> < 1" "x \<le> x'" "y \<le> y'"
  shows "oplus x y \<le> oplus x' y'"
proof -
  have "oplus x y \<le> oplus x' y" by (rule oplus_mono_left[OF assms(1,2,3,5)])
  also have "\<dots> \<le> oplus x' y'"
    unfolding oplus_commute[of x'] by (rule oplus_mono_left[OF assms(3,4,2,6)])
  finally show ?thesis .
qed

lemma scale_pos: "0 < real_of_int scale"
  by (simp add: scale_def)

lemma div_lower: "0 < d \<Longrightarrow> real_of_int (n div d) \<le> real_of_int n / real_of_int d"
  by (metis floor_divide_of_int_eq of_int_floor_le)

lemma div_upper: "0 < d \<Longrightarrow> real_of_int n / real_of_int d \<le> real_of_int (- (- n div d))"
  using div_lower[of d "- n"] by simp

lemma mult_between:
  fixes x a1 a2 b :: real
  assumes "a1 \<le> x" "x \<le> a2"
  shows "min (a1 * b) (a2 * b) \<le> x * b" "x * b \<le> max (a1 * b) (a2 * b)"
proof -
  consider "0 \<le> b" | "b \<le> 0" by linarith
  then have "min (a1 * b) (a2 * b) \<le> x * b \<and> x * b \<le> max (a1 * b) (a2 * b)"
  proof cases
    case 1
    then have "a1 * b \<le> x * b" "x * b \<le> a2 * b"
      using assms by (simp_all add: mult_right_mono)
    then show ?thesis by simp
  next
    case 2
    then have "a2 * b \<le> x * b" "x * b \<le> a1 * b"
      using assms by (simp_all add: mult_right_mono_neg)
    then show ?thesis by simp
  qed
  then show "min (a1 * b) (a2 * b) \<le> x * b" "x * b \<le> max (a1 * b) (a2 * b)" by simp_all
qed

lemma mult_corners:
  fixes x y a1 a2 b1 b2 :: real
  assumes "a1 \<le> x" "x \<le> a2" "b1 \<le> y" "y \<le> b2"
  shows "min (min (a1 * b1) (a1 * b2)) (min (a2 * b1) (a2 * b2)) \<le> x * y"
    and "x * y \<le> max (max (a1 * b1) (a1 * b2)) (max (a2 * b1) (a2 * b2))"
proof -
  note x = mult_between[OF assms(1,2), of y]
  note y1 = mult_between[OF assms(3,4), of a1] and y2 = mult_between[OF assms(3,4), of a2]
  show "min (min (a1 * b1) (a1 * b2)) (min (a2 * b1) (a2 * b2)) \<le> x * y"
    using x(1) y1(1) y2(1) by (simp add: mult.commute min_le_iff_disj) linarith
  show "x * y \<le> max (max (a1 * b1) (a1 * b2)) (max (a2 * b1) (a2 * b2))"
    using x(2) y1(2) y2(2) by (simp add: mult.commute le_max_iff_disj) linarith
qed

lemma min_divide_pos: "0 < c \<Longrightarrow> min a b / c = min (a / c) (b / (c::real))"
  by (simp add: min_def divide_le_cancel)

lemma max_divide_pos: "0 < c \<Longrightarrow> max a b / c = max (a / c) (b / (c::real))"
  by (simp add: max_def divide_le_cancel)

lemma imul_sound:
  assumes "inside x a" "inside y b"
  shows "inside (x * y) (imul a b)"
proof -
  define S where "S = real_of_int scale"
  have S: "0 < S" unfolding S_def by (rule scale_pos)
  define a1 a2 b1 b2 where "a1 = real_of_int (fst a) / S" and "a2 = real_of_int (snd a) / S"
    and "b1 = real_of_int (fst b) / S" and "b2 = real_of_int (snd b) / S"
  have bnd: "a1 \<le> x" "x \<le> a2" "b1 \<le> y" "y \<le> b2"
    using assms by (simp_all add: inside_def a1_def a2_def b1_def b2_def S_def)
  let ?lo = "min (min (fst a * fst b) (fst a * snd b)) (min (snd a * fst b) (snd a * snd b))"
  let ?hi = "max (max (fst a * fst b) (fst a * snd b)) (max (snd a * fst b) (snd a * snd b))"
  have lo: "real_of_int ?lo / (S * S) =
            min (min (a1 * b1) (a1 * b2)) (min (a2 * b1) (a2 * b2))"
    using S by (simp add: a1_def a2_def b1_def b2_def of_int_min min_divide_pos)
  have hi: "real_of_int ?hi / (S * S) =
            max (max (a1 * b1) (a1 * b2)) (max (a2 * b1) (a2 * b2))"
    using S by (simp add: a1_def a2_def b1_def b2_def of_int_max max_divide_pos)
  have "real_of_int (?lo div scale) \<le> real_of_int ?lo / S"
    unfolding S_def by (rule div_lower) (simp add: scale_def)
  then have "real_of_int (?lo div scale) / S \<le> real_of_int ?lo / (S * S)"
    using S by (simp add: field_simps)
  also have "\<dots> \<le> x * y" unfolding lo by (rule mult_corners[OF bnd])
  finally have 1: "real_of_int (?lo div scale) / S \<le> x * y" .
  have "real_of_int ?hi / S \<le> real_of_int (- (- ?hi div scale))"
    unfolding S_def by (rule div_upper) (simp add: scale_def)
  then have "real_of_int ?hi / (S * S) \<le> real_of_int (- (- ?hi div scale)) / S"
    using S by (simp add: field_simps)
  moreover have "x * y \<le> real_of_int ?hi / (S * S)" unfolding hi by (rule mult_corners[OF bnd])
  ultimately have 2: "x * y \<le> real_of_int (- (- ?hi div scale)) / S" by linarith
  show ?thesis using 1 2 by (simp add: inside_def imul_def Let_def S_def)
qed

lemma inside_abs:
  assumes "inside x a" "proper a"
  shows "\<bar>real_of_int (fst a) / real_of_int scale\<bar> < 1 \<or> x \<le> - 1"
    and "\<bar>real_of_int (snd a) / real_of_int scale\<bar> < 1 \<or> 1 \<le> x"
proof -
  have S: "0 < real_of_int scale" by (rule scale_pos)
  have "- real_of_int scale < real_of_int (fst a)" "real_of_int (snd a) < real_of_int scale"
    using assms(2) unfolding proper_def by (simp_all flip: of_int_minus)
  then have b: "- 1 < real_of_int (fst a) / real_of_int scale"
    "real_of_int (snd a) / real_of_int scale < 1"
    using S by (simp_all add: field_simps)
  from assms(1) have i: "real_of_int (fst a) / real_of_int scale \<le> x"
    "x \<le> real_of_int (snd a) / real_of_int scale" by (simp_all add: inside_def)
  show "\<bar>real_of_int (fst a) / real_of_int scale\<bar> < 1 \<or> x \<le> - 1"
    using b i by (auto simp: abs_less_iff)
  show "\<bar>real_of_int (snd a) / real_of_int scale\<bar> < 1 \<or> 1 \<le> x"
    using b i by (auto simp: abs_less_iff)
qed

lemma oplus_scaled:
  fixes S :: real
  assumes "0 < S"
  shows "oplus (p / S) (q / S) = (p + q) * S * S / (S * (S * S + p * q))"
proof -
  have "oplus (p / S) (q / S) = ((p + q) / S) / ((S * S + p * q) / (S * S))"
    using assms by (simp add: oplus_def add_divide_distrib)
  also have "\<dots> = (p + q) * S * S / (S * (S * S + p * q))"
    using assms by simp
  finally show ?thesis .
qed

lemma ioplus_sound:
  assumes x: "\<bar>x\<bar> < 1" and y: "\<bar>y\<bar> < 1" and a: "inside x a" and b: "inside y b"
  shows "inside (oplus x y) (ioplus a b)"
proof (cases "proper a \<and> proper b")
  case False
  then have e: "ioplus a b = (- scale, scale)" by (auto simp: ioplus_def)
  have "\<bar>oplus x y\<bar> < 1" by (rule oplus_bounds[OF x y])
  then show ?thesis
    unfolding e using scale_pos by (simp add: inside_def abs_less_iff)
next
  case True
  define S where "S = real_of_int scale"
  have S: "0 < S" unfolding S_def by (rule scale_pos)
  define a1 a2 b1 b2 where "a1 = real_of_int (fst a)" and "a2 = real_of_int (snd a)"
    and "b1 = real_of_int (fst b)" and "b2 = real_of_int (snd b)"
  have ax: "a1 / S \<le> x" "x \<le> a2 / S" and bx: "b1 / S \<le> y" "y \<le> b2 / S"
    using a b by (simp_all add: inside_def a1_def a2_def b1_def b2_def S_def)
  have abs: "\<bar>a1 / S\<bar> < 1" "\<bar>a2 / S\<bar> < 1" "\<bar>b1 / S\<bar> < 1" "\<bar>b2 / S\<bar> < 1"
    using inside_abs[OF a] inside_abs[OF b] True x y
    by (auto simp: a1_def a2_def b1_def b2_def S_def abs_less_iff)
  have lo: "oplus (a1 / S) (b1 / S) \<le> oplus x y"
    by (rule oplus_mono[OF abs(1) x abs(3) y ax(1) bx(1)])
  have hi: "oplus x y \<le> oplus (a2 / S) (b2 / S)"
    by (rule oplus_mono[OF x abs(2) y abs(4) ax(2) bx(2)])
  have d1: "0 < scale * scale + fst a * fst b"
  proof -
    have "0 < 1 + (a1 / S) * (b1 / S)" by (rule oplus_denominator[OF abs(1,3)])
    then have "0 < (S * S + a1 * b1) / (S * S)" using S by (simp add: field_simps)
    then have "0 < S * S + a1 * b1" using S by (simp add: zero_less_divide_iff)
    then have "0 < real_of_int (scale * scale + fst a * fst b)"
      by (simp add: S_def a1_def b1_def)
    then show ?thesis by (simp only: of_int_0_less_iff)
  qed
  have d2: "0 < scale * scale + snd a * snd b"
  proof -
    have "0 < 1 + (a2 / S) * (b2 / S)" by (rule oplus_denominator[OF abs(2,4)])
    then have "0 < (S * S + a2 * b2) / (S * S)" using S by (simp add: field_simps)
    then have "0 < S * S + a2 * b2" using S by (simp add: zero_less_divide_iff)
    then have "0 < real_of_int (scale * scale + snd a * snd b)"
      by (simp add: S_def a2_def b2_def)
    then show ?thesis by (simp only: of_int_0_less_iff)
  qed
  let ?lo = "(fst a + fst b) * scale * scale div (scale * scale + fst a * fst b)"
  let ?hi = "- (- ((snd a + snd b) * scale * scale) div (scale * scale + snd a * snd b))"
  have "real_of_int ?lo \<le> real_of_int ((fst a + fst b) * scale * scale) /
          real_of_int (scale * scale + fst a * fst b)"
    by (rule div_lower[OF d1])
  also have "\<dots> = (a1 + b1) * S * S / (S * S + a1 * b1)"
    by (simp add: S_def a1_def b1_def)
  finally have "real_of_int ?lo \<le> (a1 + b1) * S * S / (S * S + a1 * b1)" .
  then have "real_of_int ?lo / S \<le> (a1 + b1) * S * S / (S * S + a1 * b1) / S"
    by (rule divide_right_mono) (rule less_imp_le[OF S])
  also have "\<dots> = oplus (a1 / S) (b1 / S)"
    unfolding oplus_scaled[OF S] by simp
  finally have 1: "real_of_int ?lo / S \<le> oplus x y" using lo by linarith
  have "real_of_int ((snd a + snd b) * scale * scale) /
          real_of_int (scale * scale + snd a * snd b) \<le> real_of_int ?hi"
    by (rule div_upper[OF d2])
  moreover have "real_of_int ((snd a + snd b) * scale * scale) /
          real_of_int (scale * scale + snd a * snd b) = (a2 + b2) * S * S / (S * S + a2 * b2)"
    by (simp add: S_def a2_def b2_def)
  ultimately have "(a2 + b2) * S * S / (S * S + a2 * b2) \<le> real_of_int ?hi" by simp
  then have "(a2 + b2) * S * S / (S * S + a2 * b2) / S \<le> real_of_int ?hi / S"
    by (rule divide_right_mono) (rule less_imp_le[OF S])
  moreover have "(a2 + b2) * S * S / (S * S + a2 * b2) / S = oplus (a2 / S) (b2 / S)"
    unfolding oplus_scaled[OF S] by simp
  ultimately have 2: "oplus x y \<le> real_of_int ?hi / S" using hi by linarith
  show ?thesis using True 1 2 by (simp add: inside_def ioplus_def S_def)
qed

subsection \<open>Arithmetic with rounding errors\<close>

lemma eps_pos: "0 < eps"
  by (simp add: eps_def)

lemma accurate_lit:
  assumes "accurate A"
  shows "d_lit A 0 = 0" "d_lit A 1 = 1" "d_lit A 2 = 2"
    and "q \<in> set initial_r \<Longrightarrow> d_lit A q = of_rat q"
  using assms by (simp_all add: accurate_def)

lemma accurate_ops:
  assumes "accurate A"
  shows "\<bar>x + y\<bar> \<le> big \<Longrightarrow> near (d_add A x y) (x + y)"
    and "\<bar>x - y\<bar> \<le> big \<Longrightarrow> near (d_sub A x y) (x - y)"
    and "\<bar>x * y\<bar> \<le> big \<Longrightarrow> near (d_mul A x y) (x * y)"
    and "y \<noteq> 0 \<Longrightarrow> \<bar>x / y\<bar> \<le> big \<Longrightarrow> near (d_div A x y) (x / y)"
    and "exp x \<le> big \<Longrightarrow> near (d_exp A x) (exp x)"
    and "0 < x \<Longrightarrow> \<bar>ln x\<bar> \<le> big \<Longrightarrow> near (d_log A x) (ln x)"
    and "near (d_tanh A x) (tanh x)"
    and "d_less A x y \<longleftrightarrow> x < y"
  using assms by (simp_all add: accurate_def)

lemma accurate_real_ops: "accurate real_ops"
  by (simp add: accurate_def near_def eps_def initial_r_def of_rat_minus of_rat_divide)

lemma near_abs:
  assumes "near x y" "\<bar>y\<bar> \<le> b"
  shows "\<bar>x - y\<bar> \<le> eps * (b + 1)"
proof -
  have "eps * (\<bar>y\<bar> + 1) \<le> eps * (b + 1)"
    using assms(2) eps_pos by (intro mult_left_mono) simp_all
  then show ?thesis using assms(1) by (simp add: near_def)
qed

lemma rel_near:
  assumes "near x y" "c \<le> \<bar>y\<bar>" "0 < c"
  shows "rel (eps * (1 + 1 / c)) x y"
proof -
  have "1 \<le> \<bar>y\<bar> / c" using assms(2,3) by (simp add: le_divide_eq)
  then have "\<bar>y\<bar> + 1 \<le> \<bar>y\<bar> + \<bar>y\<bar> / c" by simp
  then have "eps * (\<bar>y\<bar> + 1) \<le> eps * (\<bar>y\<bar> + \<bar>y\<bar> / c)"
    using eps_pos by (intro mult_left_mono) simp_all
  also have "\<dots> = eps * (1 + 1 / c) * \<bar>y\<bar>" by (simp add: algebra_simps)
  finally show ?thesis using assms(1) by (simp add: near_def rel_def)
qed

lemma rel_mono:
  assumes "rel k x y" "k \<le> k'"
  shows "rel k' x y"
proof -
  have "k * \<bar>y\<bar> \<le> k' * \<bar>y\<bar>" using assms(2) by (intro mult_right_mono) simp_all
  then show ?thesis using assms(1) by (simp add: rel_def)
qed

lemma rel_trans:
  assumes "rel k1 x y" "rel k2 y z" "0 \<le> k1" "k2 \<le> 1"
  shows "rel (2 * k1 + k2) x z"
proof -
  have "\<bar>y\<bar> \<le> \<bar>z\<bar> + \<bar>y - z\<bar>" by simp
  also have "\<dots> \<le> \<bar>z\<bar> + k2 * \<bar>z\<bar>" using assms(2) by (simp add: rel_def)
  also have "\<dots> \<le> \<bar>z\<bar> + 1 * \<bar>z\<bar>"
    using assms(4) by (intro add_left_mono mult_right_mono) simp_all
  finally have y: "\<bar>y\<bar> \<le> 2 * \<bar>z\<bar>" by simp
  have "\<bar>x - z\<bar> \<le> \<bar>x - y\<bar> + \<bar>y - z\<bar>" by simp
  also have "\<dots> \<le> k1 * \<bar>y\<bar> + k2 * \<bar>z\<bar>"
    using assms(1,2) by (simp add: rel_def)
  also have "\<dots> \<le> k1 * (2 * \<bar>z\<bar>) + k2 * \<bar>z\<bar>"
    using y assms(3) by (intro add_right_mono mult_left_mono) simp_all
  finally show ?thesis by (simp add: rel_def algebra_simps)
qed

lemma rel_lower:
  assumes "rel k x y" "0 < y" "k \<le> 1 / 2"
  shows "y / 2 \<le> x"
proof -
  have "k * y \<le> (1 / 2) * y" using assms(2,3) by (intro mult_right_mono) simp_all
  moreover have "y - x \<le> k * y" using assms(1,2) by (simp add: rel_def abs_le_iff)
  ultimately show ?thesis by linarith
qed

lemma rel_upper:
  assumes "rel k x y" "0 < y" "k \<le> 1 / 2"
  shows "x \<le> 2 * y"
proof -
  have "k * y \<le> (1 / 2) * y" using assms(2,3) by (intro mult_right_mono) simp_all
  moreover have "x - y \<le> k * y" using assms(1,2) by (simp add: rel_def abs_le_iff)
  ultimately show ?thesis using assms(2) by linarith
qed

lemma rel_div:
  assumes n: "rel k1 n n0" and d: "rel k2 d d0" and n0: "0 < n0" and d0: "0 < d0"
    and k1: "0 \<le> k1" and k2: "0 \<le> k2" "k2 \<le> 1 / 2"
  shows "rel (2 * (k1 + k2)) (n / d) (n0 / d0)"
proof -
  have dl: "d0 / 2 \<le> d" by (rule rel_lower[OF d d0 k2(2)])
  then have dp: "0 < d" using d0 by simp
  have "n / d - n0 / d0 = ((n - n0) * d0 - n0 * (d - d0)) / (d * d0)"
    using dp d0 by (simp add: field_simps)
  then have "\<bar>n / d - n0 / d0\<bar> = \<bar>(n - n0) * d0 - n0 * (d - d0)\<bar> / (d * d0)"
    using dp d0 by (simp add: abs_mult)
  also have "\<dots> \<le> (\<bar>n - n0\<bar> * d0 + n0 * \<bar>d - d0\<bar>) / (d * d0)"
  proof (rule divide_right_mono)
    have "\<bar>(n - n0) * d0 - n0 * (d - d0)\<bar> \<le> \<bar>(n - n0) * d0\<bar> + \<bar>n0 * (d - d0)\<bar>"
      by (rule abs_triangle_ineq4)
    then show "\<bar>(n - n0) * d0 - n0 * (d - d0)\<bar> \<le> \<bar>n - n0\<bar> * d0 + n0 * \<bar>d - d0\<bar>"
      using n0 d0 by (simp add: abs_mult)
    show "0 \<le> d * d0" using dp d0 by simp
  qed
  also have "\<dots> \<le> (k1 * n0 * d0 + n0 * (k2 * d0)) / (d * d0)"
  proof (rule divide_right_mono)
    have "\<bar>n - n0\<bar> \<le> k1 * n0" "\<bar>d - d0\<bar> \<le> k2 * d0"
      using n d n0 d0 by (simp_all add: rel_def)
    then show "\<bar>n - n0\<bar> * d0 + n0 * \<bar>d - d0\<bar> \<le> k1 * n0 * d0 + n0 * (k2 * d0)"
      using n0 d0 by (intro add_mono mult_right_mono mult_left_mono) simp_all
    show "0 \<le> d * d0" using dp d0 by simp
  qed
  also have "\<dots> = (k1 + k2) * n0 / d"
  proof -
    have "k1 * n0 * d0 + n0 * (k2 * d0) = ((k1 + k2) * n0) * d0" by (simp add: algebra_simps)
    then show ?thesis using d0 by simp
  qed
  also have "\<dots> \<le> (k1 + k2) * n0 / (d0 / 2)"
    using dl d0 n0 k1 k2(1) by (intro divide_left_mono) simp_all
  also have "\<dots> = 2 * (k1 + k2) * (n0 / d0)" by simp
  finally show ?thesis using n0 d0 by (simp add: rel_def)
qed

lemma rel_ln:
  assumes q: "rel k q y" and y: "0 < y" and k: "0 \<le> k" "k \<le> 1 / 2"
  shows "0 < q" and "\<bar>ln q - ln y\<bar> \<le> 2 * k"
proof -
  have ql: "y / 2 \<le> q" by (rule rel_lower[OF q y k(2)])
  then show qp: "0 < q" using y by simp
  have d: "\<bar>q - y\<bar> \<le> k * y" using q y by (simp add: rel_def)
  have "ln q - ln y = ln (q / y)" using qp y by (simp add: ln_div)
  also have "\<dots> \<le> q / y - 1" using qp y by (intro ln_le_minus_one) simp
  also have "\<dots> = (q - y) / y" using y by (simp add: field_simps)
  also have "\<dots> \<le> k * y / y" using d y by (intro divide_right_mono) simp_all
  finally have up: "ln q - ln y \<le> k" using y by simp
  have "ln y - ln q = ln (y / q)" using qp y by (simp add: ln_div)
  also have "\<dots> \<le> y / q - 1" using qp y by (intro ln_le_minus_one) simp
  also have "\<dots> = (y - q) / q" using qp by (simp add: field_simps)
  also have "\<dots> \<le> k * y / q" using d qp by (intro divide_right_mono) simp_all
  also have "\<dots> \<le> k * y / (y / 2)"
    using ql y k(1) by (intro divide_left_mono) simp_all
  also have "\<dots> = 2 * k" using y by simp
  finally have "ln y - ln q \<le> 2 * k" .
  with up k(1) show "\<bar>ln q - ln y\<bar> \<le> 2 * k" by (simp add: abs_le_iff)
qed

lemma tanh_lipschitz: "\<bar>tanh a - tanh b\<bar> \<le> \<bar>a - b\<bar>" for a b :: real
proof -
  have m: "x - tanh x \<le> y - tanh y" if "x \<le> y" for x y :: real
  proof (rule DERIV_nonneg_imp_nondecreasing[OF that])
    fix z :: real
    have "((\<lambda>x. x - tanh x) has_field_derivative (1 - (1 - tanh z ^ 2))) (at z)"
      by (auto intro!: derivative_eq_intros)
    then show "\<exists>d. ((\<lambda>x. x - tanh x) has_real_derivative d) (at z) \<and> 0 \<le> d"
      by (intro exI[of _ "1 - (1 - tanh z ^ 2)"]) simp
  qed
  show ?thesis
  proof (cases "a \<le> b")
    case True
    with m[of a b] show ?thesis by (simp add: abs_le_iff)
  next
    case False
    with m[of b a] show ?thesis by (simp add: abs_le_iff)
  qed
qed

lemma half_tanh_lipschitz: "\<bar>half_tanh a - half_tanh b\<bar> \<le> \<bar>a - b\<bar> / 2"
  using tanh_lipschitz[of "a / 2" "b / 2"] by (simp add: half_tanh_def diff_divide_distrib[symmetric])

lemma half_tanh_abs: "half_tanh \<bar>x\<bar> = \<bar>half_tanh x\<bar>"
  by (simp add: half_tanh_def abs_if)

lemma half_tanh_magnitude:
  assumes "\<bar>half_tanh x\<bar> \<le> 1 - h" "0 < h"
  shows "\<bar>x\<bar> \<le> 2 / h"
proof -
  define e where "e = exp \<bar>x\<bar>"
  have e: "0 < e" by (simp add: e_def)
  have "half_tanh \<bar>x\<bar> \<le> 1 - h" using assms(1) by (simp add: half_tanh_abs)
  then have "(e - 1) / (e + 1) \<le> 1 - h"
    unfolding half_tanh_exp e_def .
  then have "e - 1 \<le> (1 - h) * (e + 1)" using e by (simp add: pos_divide_le_eq)
  then have "h * e \<le> 2 - h" by (simp add: algebra_simps)
  then have "h * e \<le> 2" using assms(2) by simp
  then have "e \<le> 2 / h" using assms(2) by (simp add: pos_le_divide_eq mult.commute)
  moreover have "1 + \<bar>x\<bar> \<le> e" unfolding e_def by (rule exp_ge_add_one_self)
  ultimately show ?thesis by simp
qed

text \<open>
  The groups of operations of the decoder in an accurate arithmetic, seen through
  \<open>half_tanh\<close>: the factor of the tanh rule, the product of two factors, the logarithm of
  the tanh rule, an addition, and the conversion of a channel value to a prior and back.
\<close>

lemma tanh_step:
  assumes acc: "accurate A" and V: "\<bar>V\<bar> \<le> 4000"
  shows "\<bar>d_tanh A (d_div A V (d_lit A 2)) - half_tanh V\<bar> \<le> 1 / 100000000"
proof -
  define z where "z = d_div A V (d_lit A 2)"
  have h: "\<bar>V / 2\<bar> \<le> 2000" using V by simp
  then have "\<bar>V / 2\<bar> \<le> big" by (simp add: big_def)
  then have "near z (V / 2)"
    unfolding z_def accurate_lit(3)[OF acc] by (intro accurate_ops(4)[OF acc]) simp_all
  from near_abs[OF this h] have 1: "\<bar>z - V / 2\<bar> \<le> eps * 2001" by simp
  have "\<bar>tanh z\<bar> \<le> 1"
    using tanh_real_lt_1[of z] tanh_real_gt_neg1[of z] by (simp add: abs_le_iff)
  from near_abs[OF accurate_ops(7)[OF acc] this]
  have 2: "\<bar>d_tanh A z - tanh z\<bar> \<le> eps * 2" by simp
  have 3: "\<bar>tanh z - tanh (V / 2)\<bar> \<le> \<bar>z - V / 2\<bar>" by (rule tanh_lipschitz)
  have "\<bar>d_tanh A z - tanh (V / 2)\<bar> \<le> \<bar>d_tanh A z - tanh z\<bar> + \<bar>tanh z - tanh (V / 2)\<bar>"
    by simp
  also have "\<dots> \<le> eps * 2 + eps * 2001" using 1 2 3 by simp
  also have "\<dots> \<le> 1 / 100000000" by (simp add: eps_def)
  finally show ?thesis by (simp add: z_def half_tanh_def)
qed

lemma prod_step:
  assumes acc: "accurate A"
    and T1: "\<bar>T1 - u1\<bar> \<le> 1 / 100000000" and T2: "\<bar>T2 - u2\<bar> \<le> 1 / 100000000"
    and u1: "\<bar>u1\<bar> \<le> 1" and u2: "\<bar>u2\<bar> \<le> 1"
  shows "\<bar>d_mul A (d_mul A (d_lit A 1) T1) T2 - u1 * u2\<bar> \<le> 1 / 10000000"
proof -
  define t1 where "t1 = d_mul A 1 T1"
  have b1: "\<bar>T1\<bar> \<le> 2" using T1 u1 by argo
  have b2: "\<bar>T2\<bar> \<le> 2" using T2 u2 by argo
  have "\<bar>1 * T1\<bar> \<le> big" using b1 by (simp add: big_def)
  then have "near t1 (1 * T1)" unfolding t1_def by (rule accurate_ops(3)[OF acc])
  from near_abs[OF this, of 2] b1 have 1: "\<bar>t1 - T1\<bar> \<le> eps * 3" by simp
  have "eps * 3 \<le> 1" by (simp add: eps_def)
  with 1 b1 have b3: "\<bar>t1\<bar> \<le> 3" by argo
  have "\<bar>t1\<bar> * \<bar>T2\<bar> \<le> 3 * 2" using b2 b3 by (intro mult_mono) simp_all
  then have b4: "\<bar>t1 * T2\<bar> \<le> 6" by (simp add: abs_mult)
  then have "\<bar>t1 * T2\<bar> \<le> big" by (simp add: big_def)
  then have "near (d_mul A t1 T2) (t1 * T2)" by (rule accurate_ops(3)[OF acc])
  from near_abs[OF this b4] have 2: "\<bar>d_mul A t1 T2 - t1 * T2\<bar> \<le> eps * 7" by simp
  have "t1 * T2 - u1 * u2 = (t1 - u1) * T2 + u1 * (T2 - u2)" by (simp add: algebra_simps)
  then have "\<bar>t1 * T2 - u1 * u2\<bar> \<le> \<bar>t1 - u1\<bar> * \<bar>T2\<bar> + \<bar>u1\<bar> * \<bar>T2 - u2\<bar>"
    using abs_triangle_ineq[of "(t1 - u1) * T2" "u1 * (T2 - u2)"] by (simp add: abs_mult)
  also have "\<dots> \<le> (1 / 100000000 + eps * 3) * 2 + 1 * (1 / 100000000)"
  proof (intro add_mono mult_mono)
    show "\<bar>t1 - u1\<bar> \<le> 1 / 100000000 + eps * 3" using 1 T1 by argo
    show "0 \<le> 1 / 100000000 + eps * 3" using eps_pos by simp
  qed (use b2 u1 T2 in simp_all)
  finally have 3: "\<bar>t1 * T2 - u1 * u2\<bar> \<le> (1 / 100000000 + eps * 3) * 2 + 1 / 100000000" by simp
  have "\<bar>d_mul A t1 T2 - u1 * u2\<bar> \<le> \<bar>d_mul A t1 T2 - t1 * T2\<bar> + \<bar>t1 * T2 - u1 * u2\<bar>"
    by simp
  also have "\<dots> \<le> eps * 7 + ((1 / 100000000 + eps * 3) * 2 + 1 / 100000000)"
    using 2 3 by simp
  also have "\<dots> \<le> 1 / 10000000" by (simp add: eps_def)
  finally show ?thesis by (simp add: t1_def accurate_lit(2)[OF acc])
qed

lemma log_step:
  assumes acc: "accurate A" and t: "\<bar>t\<bar> \<le> 1 - 1 / 2000"
  shows "\<bar>half_tanh (d_log A (d_div A (d_add A (d_lit A 1) t) (d_sub A (d_lit A 1) t))) - t\<bar>
           \<le> 1 / 10000000"
proof -
  define n where "n = d_add A 1 t"
  define d where "d = d_sub A 1 t"
  define q where "q = d_div A n d"
  define y where "y = (1 + t) / (1 - t)"
  have n0: "1 / 2000 \<le> 1 + t" "1 + t \<le> 2" and d0: "1 / 2000 \<le> 1 - t" "1 - t \<le> 2"
    using t by (simp_all add: abs_le_iff)
  have "near n (1 + t)"
    unfolding n_def using n0 by (intro accurate_ops(1)[OF acc]) (simp add: big_def)
  then have rn: "rel (eps * 2001) n (1 + t)"
    using rel_near[of n "1 + t" "1 / 2000"] n0 by simp
  have "near d (1 - t)"
    unfolding d_def using d0 by (intro accurate_ops(2)[OF acc]) (simp add: big_def)
  then have rd: "rel (eps * 2001) d (1 - t)"
    using rel_near[of d "1 - t" "1 / 2000"] d0 by simp
  have k: "0 \<le> eps * 2001" "eps * 2001 \<le> 1 / 2" by (simp_all add: eps_def)
  have "rel (2 * (eps * 2001 + eps * 2001)) (n / d) y"
    unfolding y_def using n0 d0 by (intro rel_div[OF rn rd _ _ k(1) k]) simp_all
  then have r1: "rel (eps * 8004) (n / d) y" by (simp add: algebra_simps)
  have yl: "1 / 4000 \<le> y"
  proof -
    have "1 / 4000 = (1 / 2000) / (2 :: real)" by simp
    also have "\<dots> \<le> (1 + t) / (1 - t)" using n0 d0 by (intro frac_le) simp_all
    finally show ?thesis by (simp add: y_def)
  qed
  have yu: "y \<le> 4000"
  proof -
    have "(1 + t) / (1 - t) \<le> 2 / (1 / 2000)" using n0 d0 by (intro frac_le) simp_all
    then show ?thesis by (simp add: y_def)
  qed
  have yp: "0 < y" using yl by simp
  have k1: "eps * 8004 \<le> 1 / 2" by (simp add: eps_def)
  have dp: "0 < d" using rel_lower[OF rd _ k(2)] d0 by simp
  have ql: "1 / 8000 \<le> n / d" using rel_lower[OF r1 yp k1] yl by argo
  have qu: "n / d \<le> 8000" using rel_upper[OF r1 yp k1] yu by argo
  have qa: "\<bar>n / d\<bar> \<le> 8000" using ql qu by argo
  have "near q (n / d)"
    unfolding q_def using qa dp by (intro accurate_ops(4)[OF acc]) (simp_all add: big_def)
  moreover have "1 / 8000 \<le> \<bar>n / d\<bar>" using ql by argo
  ultimately have "rel (eps * (1 + 1 / (1 / 8000))) q (n / d)" by (rule rel_near) simp
  then have r2: "rel (eps * 8001) q (n / d)" by simp
  have "rel (2 * (eps * 8001) + eps * 8004) q y"
    by (rule rel_trans[OF r2 r1]) (simp_all add: eps_def)
  then have r3: "rel (eps * 24006) q y" by (simp add: algebra_simps)
  have k3: "0 \<le> eps * 24006" "eps * 24006 \<le> 1 / 2" by (simp_all add: eps_def)
  note l = rel_ln[OF r3 yp k3]
  have "ln y \<le> y - 1" by (rule ln_le_minus_one[OF yp])
  moreover have "ln (1 / y) \<le> 1 / y - 1" using yp by (intro ln_le_minus_one) simp
  moreover have "1 / y \<le> 4000" using yl yp by (simp add: field_simps)
  moreover have "ln (1 / y) = - ln y" using yp by (simp add: ln_div)
  ultimately have ly: "\<bar>ln y\<bar> \<le> 4000" using yu by argo
  have "2 * (eps * 24006) \<le> 1" by (simp add: eps_def)
  with l(2) ly have lq: "\<bar>ln q\<bar> \<le> 4001" by argo
  then have "near (d_log A q) (ln q)"
    using l(1) by (intro accurate_ops(6)[OF acc]) (simp_all add: big_def)
  from near_abs[OF this lq] have c: "\<bar>d_log A q - ln q\<bar> \<le> eps * 4002" by simp
  have "\<bar>d_log A q - ln y\<bar> \<le> \<bar>d_log A q - ln q\<bar> + \<bar>ln q - ln y\<bar>" by simp
  also have "\<dots> \<le> eps * 4002 + 2 * (eps * 24006)" using c l(2) by simp
  finally have e: "\<bar>d_log A q - ln y\<bar> \<le> eps * 52014" by simp
  have "half_tanh (ln y) = t"
    unfolding y_def using t by (intro half_tanh_check) (simp_all add: abs_le_iff)
  then have "\<bar>half_tanh (d_log A q) - t\<bar> \<le> \<bar>d_log A q - ln y\<bar> / 2"
    using half_tanh_lipschitz[of "d_log A q" "ln y"] by simp
  also have "\<dots> \<le> eps * 52014 / 2" using e by simp
  also have "\<dots> \<le> 1 / 10000000" by (simp add: eps_def)
  finally show ?thesis by (simp add: q_def n_def d_def accurate_lit(2)[OF acc])
qed

lemma check_step:
  assumes acc: "accurate A" and V1: "\<bar>V1\<bar> \<le> 4000" and V2: "\<bar>V2\<bar> \<le> 4000"
    and p: "\<bar>half_tanh V1 * half_tanh V2\<bar> \<le> 1 - 6 / 10000"
  defines "t \<equiv> d_mul A (d_mul A (d_lit A 1) (d_tanh A (d_div A V1 (d_lit A 2))))
                  (d_tanh A (d_div A V2 (d_lit A 2)))"
  shows "\<bar>half_tanh (d_log A (d_div A (d_add A (d_lit A 1) t) (d_sub A (d_lit A 1) t))) -
           half_tanh V1 * half_tanh V2\<bar> \<le> 1 / 1000000"
proof -
  have u: "\<bar>half_tanh V1\<bar> \<le> 1" "\<bar>half_tanh V2\<bar> \<le> 1"
    using half_tanh_bounds[of V1] half_tanh_bounds[of V2] by (simp_all add: abs_le_iff)
  have 1: "\<bar>t - half_tanh V1 * half_tanh V2\<bar> \<le> 1 / 10000000"
    unfolding t_def
    by (rule prod_step[OF acc tanh_step[OF acc V1] tanh_step[OF acc V2] u])
  then have "\<bar>t\<bar> \<le> 1 - 1 / 2000" using p by argo
  from log_step[OF acc this] 1 show ?thesis by argo
qed

lemma add_step:
  assumes acc: "accurate A" and a: "\<bar>a\<bar> \<le> 5000" and b: "\<bar>b\<bar> \<le> 5000"
  shows "\<bar>half_tanh (d_add A a b) - oplus (half_tanh a) (half_tanh b)\<bar> \<le> 1 / 100000000"
    and "\<bar>d_add A a b\<bar> \<le> \<bar>a\<bar> + \<bar>b\<bar> + 1"
proof -
  have s: "\<bar>a + b\<bar> \<le> 10000" using a b by (simp add: abs_le_iff)
  then have "near (d_add A a b) (a + b)"
    by (intro accurate_ops(1)[OF acc]) (simp add: big_def)
  from near_abs[OF this s] have e: "\<bar>d_add A a b - (a + b)\<bar> \<le> eps * 10001" by simp
  have "\<bar>half_tanh (d_add A a b) - half_tanh (a + b)\<bar> \<le> \<bar>d_add A a b - (a + b)\<bar> / 2"
    by (rule half_tanh_lipschitz)
  also have "\<dots> \<le> eps * 10001 / 2" using e by simp
  also have "\<dots> \<le> 1 / 100000000" by (simp add: eps_def)
  finally show "\<bar>half_tanh (d_add A a b) - oplus (half_tanh a) (half_tanh b)\<bar> \<le> 1 / 100000000"
    by (simp add: half_tanh_add)
  have "eps * 10001 \<le> 1" by (simp add: eps_def)
  with e show "\<bar>d_add A a b\<bar> \<le> \<bar>a\<bar> + \<bar>b\<bar> + 1" by argo
qed

lemma rel_add_one:
  assumes "rel k a x" "0 \<le> x" "0 \<le> k"
  shows "rel k (1 + a) (1 + x)"
proof -
  have "k * x \<le> k * (1 + x)" using assms(3) by (intro mult_left_mono) simp_all
  then show ?thesis using assms(1,2) by (simp add: rel_def)
qed

lemma init_step:
  assumes acc: "accurate A" and xl: "1 / 150 \<le> exp r" and xu: "exp r \<le> 150"
  shows "\<bar>p_to_l A (l_to_p A r) - r\<bar> \<le> 1 / 1000000"
proof -
  define x where "x = exp r"
  define a where "a = d_exp A r"
  define s where "s = d_add A 1 a"
  define p where "p = d_div A a s"
  define m where "m = d_sub A 1 p"
  define ov where "ov = d_div A p m"
  define p0 where "p0 = x / (1 + x)"
  have x: "1 / 150 \<le> x" "x \<le> 150" "0 < x" using xl xu by (simp_all add: x_def)
  text \<open>the exponential\<close>
  have "near a x" unfolding a_def x_def using xu by (intro accurate_ops(5)[OF acc]) (simp add: big_def)
  moreover have "1 / 150 \<le> \<bar>x\<bar>" using x by argo
  ultimately have "rel (eps * (1 + 1 / (1 / 150))) a x" by (rule rel_near) simp
  then have ra: "rel (eps * 151) a x" by simp
  have ka: "0 \<le> eps * 151" "eps * 151 \<le> 1 / 2" by (simp_all add: eps_def)
  have al: "x / 2 \<le> a" by (rule rel_lower[OF ra x(3) ka(2)])
  have au: "a \<le> 2 * x" by (rule rel_upper[OF ra x(3) ka(2)])
  text \<open>the denominator \<open>1 + exp r\<close>\<close>
  have s1: "1 \<le> \<bar>1 + a\<bar>" "\<bar>1 + a\<bar> \<le> 301" using al au x by argo+
  have "near s (1 + a)" unfolding s_def using s1 by (intro accurate_ops(1)[OF acc]) (simp add: big_def)
  then have "rel (eps * (1 + 1 / 1)) s (1 + a)" using s1(1) by (rule rel_near) simp
  then have "rel (eps * 2) s (1 + a)" by simp
  from rel_trans[OF this rel_add_one[OF ra _ ka(1)]] x ka
  have "rel (2 * (eps * 2) + eps * 151) s (1 + x)" using eps_pos by simp
  then have rs: "rel (eps * 155) s (1 + x)" by (simp add: algebra_simps)
  have ks: "0 \<le> eps * 155" "eps * 155 \<le> 1 / 2" by (simp_all add: eps_def)
  have sp: "0 < s" using rel_lower[OF rs _ ks(2)] x by simp
  text \<open>the prior\<close>
  have "rel (2 * (eps * 151 + eps * 155)) (a / s) p0"
    unfolding p0_def using x by (intro rel_div[OF ra rs _ _ ka(1) ks]) simp_all
  then have r1: "rel (eps * 612) (a / s) p0" by (simp add: algebra_simps)
  have k1: "0 \<le> eps * 612" "eps * 612 \<le> 1 / 2" by (simp_all add: eps_def)
  have p0l: "1 / 151 \<le> p0"
  proof -
    have "1 + x \<le> 151 * x" using x by simp
    then have "(1 + x) / (1 + x) \<le> 151 * x / (1 + x)"
      using x by (intro divide_right_mono) simp_all
    then show ?thesis using x by (simp add: p0_def)
  qed
  have p0u: "p0 \<le> 1" using x by (simp add: p0_def)
  have p0p: "0 < p0" using p0l by simp
  have one_p0: "1 - p0 = 1 / (1 + x)" using x by (simp add: p0_def field_simps)
  have q0l: "1 / 151 \<le> 1 - p0"
    unfolding one_p0 using x by (intro divide_left_mono) simp_all
  have asl: "1 / 302 \<le> a / s" using rel_lower[OF r1 p0p k1(2)] p0l by argo
  have asu: "a / s \<le> 2" using rel_upper[OF r1 p0p k1(2)] p0u by argo
  have asa: "\<bar>a / s\<bar> \<le> 2" using asl asu by argo
  have "near p (a / s)"
    unfolding p_def using asa sp
    by (intro accurate_ops(4)[OF acc]) (simp_all add: big_def)
  moreover have "1 / 302 \<le> \<bar>a / s\<bar>" using asl by argo
  ultimately have "rel (eps * (1 + 1 / (1 / 302))) p (a / s)" by (rule rel_near) simp
  then have "rel (eps * 303) p (a / s)" by simp
  from rel_trans[OF this r1] k1
  have "rel (2 * (eps * 303) + eps * 612) p p0" using eps_pos by simp
  then have rp: "rel (eps * 1218) p p0" by (simp add: algebra_simps)
  have kp: "0 \<le> eps * 1218" "eps * 1218 \<le> 1 / 2" by (simp_all add: eps_def)
  text \<open>\<open>1 - p\<close>\<close>
  have "\<bar>(1 - p) - (1 - p0)\<bar> = \<bar>p - p0\<bar>" by simp
  also have "\<dots> \<le> eps * 1218 * p0" using rp p0p by (simp add: rel_def)
  also have "\<dots> \<le> eps * 1218 * 1" using p0u kp(1) by (intro mult_left_mono) simp_all
  also have "\<dots> \<le> eps * 1218 * (151 * (1 - p0))"
    using q0l kp(1) by (intro mult_left_mono) simp_all
  finally have "rel (eps * 1218 * 151) (1 - p) (1 - p0)"
    using q0l by (simp add: rel_def algebra_simps)
  then have r2: "rel (eps * 183918) (1 - p) (1 - p0)" by (simp add: mult.commute)
  have k2: "0 \<le> eps * 183918" "eps * 183918 \<le> 1 / 2" by (simp_all add: eps_def)
  have q0p: "0 < 1 - p0" using q0l by simp
  have ml: "1 / 302 \<le> 1 - p" using rel_lower[OF r2 q0p k2(2)] q0l by argo
  have mu: "1 - p \<le> 2" using rel_upper[OF r2 q0p k2(2)] p0p by argo
  have ma: "\<bar>1 - p\<bar> \<le> 2" using ml mu by argo
  have "near m (1 - p)"
    unfolding m_def using ma
    by (intro accurate_ops(2)[OF acc]) (simp add: big_def)
  moreover have "1 / 302 \<le> \<bar>1 - p\<bar>" using ml by argo
  ultimately have "rel (eps * (1 + 1 / (1 / 302))) m (1 - p)" by (rule rel_near) simp
  then have "rel (eps * 303) m (1 - p)" by simp
  from rel_trans[OF this r2] k2
  have "rel (2 * (eps * 303) + eps * 183918) m (1 - p0)" using eps_pos by simp
  then have rm: "rel (eps * 184524) m (1 - p0)" by (simp add: algebra_simps)
  have km: "0 \<le> eps * 184524" "eps * 184524 \<le> 1 / 2" by (simp_all add: eps_def)
  have mp: "0 < m" using rel_lower[OF rm q0p km(2)] q0p by simp
  text \<open>the quotient \<open>p / (1 - p)\<close>\<close>
  have px: "p0 / (1 - p0) = x" unfolding one_p0 using x by (simp add: p0_def)
  have "rel (2 * (eps * 1218 + eps * 184524)) (p / m) (p0 / (1 - p0))"
    by (rule rel_div[OF rp rm p0p q0p kp(1) km])
  then have r3: "rel (eps * 371484) (p / m) x" by (simp add: px algebra_simps)
  have k3: "0 \<le> eps * 371484" "eps * 371484 \<le> 1 / 2" by (simp_all add: eps_def)
  have pml: "1 / 300 \<le> p / m" using rel_lower[OF r3 x(3) k3(2)] x by argo
  have pmu: "p / m \<le> 300" using rel_upper[OF r3 x(3) k3(2)] x by argo
  have pma: "\<bar>p / m\<bar> \<le> 300" using pml pmu by argo
  have "near ov (p / m)"
    unfolding ov_def using pma mp
    by (intro accurate_ops(4)[OF acc]) (simp_all add: big_def)
  moreover have "1 / 300 \<le> \<bar>p / m\<bar>" using pml by argo
  ultimately have "rel (eps * (1 + 1 / (1 / 300))) ov (p / m)" by (rule rel_near) simp
  then have "rel (eps * 301) ov (p / m)" by simp
  from rel_trans[OF this r3] k3
  have "rel (2 * (eps * 301) + eps * 371484) ov x" using eps_pos by simp
  then have ro: "rel (eps * 372086) ov x" by (simp add: algebra_simps)
  have ko: "0 \<le> eps * 372086" "eps * 372086 \<le> 1 / 2" by (simp_all add: eps_def)
  text \<open>the logarithm\<close>
  note l = rel_ln[OF ro x(3) ko]
  have lx: "ln x = r" by (simp add: x_def)
  have "1 + r \<le> exp r" "1 + (- r) \<le> exp (- r)" by (rule exp_ge_add_one_self)+
  moreover have "exp (- r) \<le> 150" using xl x(3) by (simp add: exp_minus x_def field_simps)
  ultimately have rb: "\<bar>r\<bar> \<le> 150" using xu by argo
  have "2 * (eps * 372086) \<le> 1" by (simp add: eps_def)
  with l(2) rb have lo: "\<bar>ln ov\<bar> \<le> 151" unfolding lx by argo
  then have "near (d_log A ov) (ln ov)"
    using l(1) by (intro accurate_ops(6)[OF acc]) (simp_all add: big_def)
  from near_abs[OF this lo] have c: "\<bar>d_log A ov - ln ov\<bar> \<le> eps * 152" by simp
  have "\<bar>d_log A ov - r\<bar> \<le> \<bar>d_log A ov - ln ov\<bar> + \<bar>ln ov - r\<bar>" by simp
  also have "\<dots> \<le> eps * 152 + 2 * (eps * 372086)" using c l(2) by (simp add: lx)
  also have "\<dots> \<le> 1 / 1000000" by (simp add: eps_def)
  finally show ?thesis
    by (simp add: p_to_l_def l_to_p_def ov_def m_def p_def s_def a_def accurate_lit(2)[OF acc])
qed

lemma new_state_facts:
  "state_ok (state_new A n G GI)" "n_v (state_new A n G GI) = 6" "n_c (state_new A n G GI) = 4"
  "matrix (state_new A n G GI) = matrix_const"
  "length (first_iteration (state_new A N_ITERATIONS G GI)) = 8"
  by (simp_all add: state_new_ok) (simp_all add: state_new_eq N_ITERATIONS_def)

lemma llr_of_new:
  assumes "v < 6"
  shows "llr_of A (state_new A n G GI) v = llr_main A v"
proof -
  have "channel (state_new A n G GI) ! v = l_to_p A (d_lit A (initial_r ! v))"
    using assms by (simp add: state_new_eq initial_r_def)
  then show ?thesis by (simp add: llr_of_def p_to_l_def llr_main_def)
qed

lemma variable_message_0:
  assumes "c < 4" "v < 6"
  shows "message_c_to_v (run_of A G GI ! 0) ! c ! v = llr_main A v"
  using incoming_eq[OF new_state_facts(1), of 0 A N_ITERATIONS G GI c v A] assms
  by (simp add: new_state_facts run_of_def llr_of_new)

lemma variable_message_Suc:
  assumes "Suc r < 8" "c < 4" "v < 6" "others_c c v = [c']"
  shows "message_c_to_v (run_of A G GI ! Suc r) ! c ! v =
           d_add A (llr_main A v) (message_v_to_c (run_of A G GI ! r) ! c' ! v)"
proof -
  have "message_c_to_v (run_of A G GI ! Suc r) ! c ! v =
          spec_variable_message A matrix_const 4 (llr_of A (state_new A N_ITERATIONS G GI))
            (message_v_to_c (run_of A G GI ! r)) c v"
    using incoming_eq[OF new_state_facts(1), of "Suc r" A N_ITERATIONS G GI c v A] assms
    by (simp add: new_state_facts run_of_def)
  then show ?thesis
    using assms(4) by (simp add: spec_variable_message_def others_c_def llr_of_new[OF assms(3)])
qed

lemma check_message_run:
  fixes A :: "real double_ops" and G :: "real garbage" and GI :: "nat \<Rightarrow> real garbage"
  assumes "r < 8" "c < 4" "v < 6" "others_v c v = [a, b]"
  defines "m \<equiv> message_c_to_v (run_of A G GI ! r) ! c"
  defines "t \<equiv> d_mul A (d_mul A (d_lit A 1) (d_tanh A (d_div A (m ! a) (d_lit A 2))))
                  (d_tanh A (d_div A (m ! b) (d_lit A 2)))"
  shows "message_v_to_c (run_of A G GI ! r) ! c ! v =
           d_log A (d_div A (d_add A (d_lit A 1) t) (d_sub A (d_lit A 1) t))"
proof -
  have "message_v_to_c (run_of A G GI ! r) ! c ! v =
          spec_check_message A matrix_const 6
            (\<lambda>v'. message_c_to_v (run_of A G GI ! r) ! c ! v') c v"
    using check_message_eq[OF new_state_facts(1), of r A N_ITERATIONS G GI c v A] assms(1-3)
    by (simp add: new_state_facts run_of_def)
  then show ?thesis
    using assms(4) by (simp add: spec_check_message_def others_v_def t_def m_def Let_def)
qed

lemma belief_run:
  assumes "r < 8" "v < 6" "checks_of v = [c1, c2]"
  shows "l (run_of A G GI ! r) ! v =
           d_add A (d_add A (llr_main A v) (message_v_to_c (run_of A G GI ! r) ! c1 ! v))
             (message_v_to_c (run_of A G GI ! r) ! c2 ! v)"
proof -
  have "l (run_of A G GI ! r) ! v =
          spec_belief A matrix_const 4 (llr_of A (state_new A N_ITERATIONS G GI))
            (message_v_to_c (run_of A G GI ! r)) v"
    using belief_eq(1)[OF new_state_facts(1), of r A N_ITERATIONS G GI v A] assms(1,2)
    by (simp add: new_state_facts run_of_def)
  then show ?thesis
    using assms(3) by (simp add: spec_belief_def checks_of_def llr_of_new[OF assms(2)])
qed

lemma others_v_table:
  "map (\<lambda>c. map (others_v c) [0..<6]) [0..<4] =
     [[[1, 3], [0, 3], [0, 1, 3], [0, 1], [0, 1, 3], [0, 1, 3]],
      [[1, 2, 4], [2, 4], [1, 4], [1, 2, 4], [1, 2], [1, 2, 4]],
      [[4, 5], [0, 4, 5], [0, 4, 5], [0, 4, 5], [0, 5], [0, 4]],
      [[2, 3, 5], [2, 3, 5], [3, 5], [2, 5], [2, 3, 5], [2, 3]]]"
  by code_simp

lemma others_c_table:
  "map (\<lambda>c. map (others_c c) [0..<6]) [0..<4] =
     [[[2], [1], [1, 3], [3], [1, 2], [2, 3]],
      [[0, 2], [0], [3], [0, 3], [2], [2, 3]],
      [[0], [0, 1], [1, 3], [0, 3], [1], [3]],
      [[0, 2], [0, 1], [1], [0], [1, 2], [2]]]"
  by code_simp

lemma checks_of_table:
  "map checks_of [0..<6] = [[0, 2], [0, 1], [1, 3], [0, 3], [1, 2], [2, 3]]"
  by code_simp

lemma upt_4: "[0..<4] = [0, 1, 2, 3]" and upt_6: "[0..<6] = [0, 1, 2, 3, 4, 5]"
  by code_simp+

lemma others_v_eval:
  "c < 4 \<Longrightarrow> v < 6 \<Longrightarrow> others_v c v =
     [[[1, 3], [0, 3], [0, 1, 3], [0, 1], [0, 1, 3], [0, 1, 3]],
      [[1, 2, 4], [2, 4], [1, 4], [1, 2, 4], [1, 2], [1, 2, 4]],
      [[4, 5], [0, 4, 5], [0, 4, 5], [0, 4, 5], [0, 5], [0, 4]],
      [[2, 3, 5], [2, 3, 5], [3, 5], [2, 5], [2, 3, 5], [2, 3]]] ! c ! v"
  unfolding others_v_table[symmetric] by simp

lemma others_c_eval:
  "c < 4 \<Longrightarrow> v < 6 \<Longrightarrow> others_c c v =
     [[[2], [1], [1, 3], [3], [1, 2], [2, 3]],
      [[0, 2], [0], [3], [0, 3], [2], [2, 3]],
      [[0], [0, 1], [1, 3], [0, 3], [1], [3]],
      [[0, 2], [0, 1], [1], [0], [1, 2], [2]]] ! c ! v"
  unfolding others_c_table[symmetric] by simp

lemma checks_of_eval:
  "v < 6 \<Longrightarrow> checks_of v = [[0, 2], [0, 1], [1, 3], [0, 3], [1, 2], [2, 3]] ! v"
  unfolding checks_of_table[symmetric] by simp

lemma edges_eval:
  "edges = [(0, 0), (0, 1), (0, 3), (1, 1), (1, 2), (1, 4), (2, 0), (2, 4), (2, 5),
            (3, 2), (3, 3), (3, 5)]"
  by code_simp

lemma inside_widen:
  assumes "inside x i" "fst r \<le> fst i" "snd i \<le> snd r"
  shows "inside x r"
proof -
  have "real_of_int (fst r) / real_of_int scale \<le> real_of_int (fst i) / real_of_int scale"
    "real_of_int (snd i) / real_of_int scale \<le> real_of_int (snd r) / real_of_int scale"
    using assms(2,3) scale_pos by (simp_all add: divide_right_mono)
  then show ?thesis using assms(1) by (simp add: inside_def)
qed

lemma le_div_int: "0 < d \<Longrightarrow> lo * d \<le> n \<Longrightarrow> lo \<le> n div (d::int)"
  using zdiv_mono1[of "lo * d" n d] by simp

lemma le_div_int_upper: "0 < d \<Longrightarrow> n \<le> hi * d \<Longrightarrow> - (- n div d) \<le> (hi::int)"
  using le_div_int[of d "- hi" "- n"] by simp

lemma imul_ok_sound:
  assumes "inside x a" "inside y b" "imul_ok a b r"
  shows "inside (x * y) r"
proof (rule inside_widen[OF imul_sound[OF assms(1,2)]])
  have s: "0 < scale" by (simp add: scale_def)
  show "fst r \<le> fst (imul a b)"
    using assms(3) by (simp add: imul_def imul_ok_def Let_def le_div_int[OF s])
  show "snd (imul a b) \<le> snd r"
    using assms(3) by (simp add: imul_def imul_ok_def Let_def le_div_int_upper[OF s])
qed

lemma proper_denominator:
  assumes "proper a" "proper b" "fst a \<le> snd a" "fst b \<le> snd b"
  shows "0 < scale * scale + fst a * fst b" "0 < scale * scale + snd a * snd b"
proof -
  have s: "0 < scale" by (simp add: scale_def)
  have a: "\<bar>fst a\<bar> < scale" "\<bar>snd a\<bar> < scale" and b: "\<bar>fst b\<bar> < scale" "\<bar>snd b\<bar> < scale"
    using assms by (simp_all add: proper_def abs_less_iff)
  have "\<bar>fst a\<bar> * \<bar>fst b\<bar> < scale * scale" "\<bar>snd a\<bar> * \<bar>snd b\<bar> < scale * scale"
    using a b by (simp_all add: abs_mult_less)
  then have "\<bar>fst a * fst b\<bar> < scale * scale" "\<bar>snd a * snd b\<bar> < scale * scale"
    by (simp_all add: abs_mult)
  then show "0 < scale * scale + fst a * fst b" "0 < scale * scale + snd a * snd b"
    by (simp_all add: abs_less_iff)
qed

lemma ioplus_ok_sound:
  assumes "\<bar>x\<bar> < 1" "\<bar>y\<bar> < 1" "inside x a" "inside y b" "ioplus_ok a b r"
  shows "inside (oplus x y) r"
proof (rule inside_widen[OF ioplus_sound[OF assms(1-4)]])
  from assms(5) have p: "proper a" "proper b" "fst a \<le> snd a" "fst b \<le> snd b"
    by (simp_all add: ioplus_ok_def)
  note d = proper_denominator[OF p]
  show "fst r \<le> fst (ioplus a b)"
    using assms(5) p by (simp add: ioplus_def ioplus_ok_def le_div_int[OF d(1)])
  show "snd (ioplus a b) \<le> snd r"
    using assms(5) p by (simp add: ioplus_def ioplus_ok_def le_div_int_upper[OF d(2)])
qed

lemma edges_iff: "(c, v) \<in> set edges \<longleftrightarrow> c < 4 \<and> v < 6 \<and> edge_connected matrix_const c v"
  by (auto simp: edges_def)

lemma others_v_mem: "a \<in> set (others_v c v) \<Longrightarrow> c < 4 \<Longrightarrow> (c, a) \<in> set edges"
  by (simp add: others_v_def edges_iff)

lemma others_c_mem: "c' \<in> set (others_c c v) \<Longrightarrow> v < 6 \<Longrightarrow> (c', v) \<in> set edges"
  by (simp add: others_c_def edges_iff)

lemma checks_of_mem: "c \<in> set (checks_of v) \<Longrightarrow> v < 6 \<Longrightarrow> (c, v) \<in> set edges"
  by (simp add: checks_of_def edges_iff)

lemma exp_half_sum: "(\<Sum>m<10. ((1 / 2 :: real) ^ m) / fact m) = 306323443 / 185794560"
  by (simp add: eval_nat_numeral)

lemma exp_half_bounds:
  "164872127 / 100000000 \<le> exp (1 / 2 :: real)" "exp (1 / 2 :: real) \<le> 164872128 / 100000000"
proof -
  obtain t :: real where t: "\<bar>t\<bar> \<le> \<bar>1 / 2\<bar>"
    and e: "exp (1 / 2 :: real) =
              (\<Sum>m<10. ((1 / 2) ^ m) / fact m) + (exp t / fact 10) * (1 / 2) ^ 10"
    using Maclaurin_exp_le[of "1 / 2" 10] by blast
  define R where "R = (exp t / fact 10) * (1 / 2) ^ 10"
  have f: "(fact 10 :: real) = 3628800" by (simp add: eval_nat_numeral)
  have p: "((1 / 2 :: real) ^ 10) = 1 / 1024" by (simp add: power_divide)
  have Req: "R = exp t / 3715891200" by (simp add: R_def f p)
  have r1: "0 \<le> R" unfolding Req by simp
  have "exp t \<le> 2" using exp_bound_half[of t] t by simp
  then have "exp t / 3715891200 \<le> 2 / 3715891200" by (rule divide_right_mono) simp
  then have r2: "R \<le> 1 / 1857945600" unfolding Req by simp
  have q: "exp (1 / 2 :: real) = 306323443 / 185794560 + R"
    unfolding R_def using e by (simp only: exp_half_sum)
  show "164872127 / 100000000 \<le> exp (1 / 2 :: real)" unfolding q using r1 by simp
  show "exp (1 / 2 :: real) \<le> 164872128 / 100000000" unfolding q using r2 by simp
qed

lemma half_tanh_minus: "half_tanh (- x) = - half_tanh x"
  by (simp add: half_tanh_def)

lemma inside_minus: "inside x (lo, hi) \<Longrightarrow> inside (- x) (- hi, - lo)"
  by (simp add: inside_def)

lemma ratio_mono:
  fixes y y' :: real
  assumes "0 \<le> y" "y \<le> y'"
  shows "(y - 1) / (y + 1) \<le> (y' - 1) / (y' + 1)"
proof -
  have "(y - 1) * (y' + 1) \<le> (y' - 1) * (y + 1)" using assms by (simp add: algebra_simps)
  then show ?thesis using assms by (simp add: frac_le_eq divide_le_0_iff algebra_simps)
qed

lemma ratio_frac:
  fixes x y :: real
  assumes "0 < y"
  shows "(x / y - 1) / (x / y + 1) = (x - y) / (x + y)"
proof -
  have "x / y - 1 = (x - y) / y" using assms by (simp add: diff_divide_distrib)
  moreover have "x / y + 1 = (x + y) / y" using assms by (simp add: add_divide_distrib)
  ultimately show ?thesis using assms by simp
qed

lemma ratio_pow:
  fixes a d :: real
  assumes "0 < d"
  shows "((a / d) ^ k - 1) / ((a / d) ^ k + 1) = (a ^ k - d ^ k) / (a ^ k + d ^ k)"
  unfolding power_divide using assms by (intro ratio_frac) simp

lemma frac_le_pos:
  fixes a b c d :: real
  assumes "0 < b" "0 < d" "a * d \<le> b * c"
  shows "a / b \<le> c / d"
  using assms by (simp add: field_simps)

lemma frac_ge_pos:
  fixes a b c d :: real
  assumes "0 < b" "0 < d" "b * c \<le> a * d"
  shows "c / d \<le> a / b"
  using assms by (simp add: field_simps)

lemma half_tanh_enclosure:
  fixes k :: nat and lo hi :: int
  assumes "lo * (164872127 ^ k + 100000000 ^ k) \<le> scale * (164872127 ^ k - 100000000 ^ k)"
    and "scale * (164872128 ^ k - 100000000 ^ k) \<le> hi * (164872128 ^ k + 100000000 ^ k)"
  shows "inside (half_tanh (real k / 2)) (lo, hi)"
proof -
  have "exp (real k / 2) = exp (real k * (1 / 2))" by simp
  also have "\<dots> = exp (1 / 2) ^ k" by (rule exp_of_nat_mult)
  finally have e: "exp (real k / 2) = exp (1 / 2) ^ k" .
  have lo: "(164872127 / 100000000) ^ k \<le> exp (1 / 2 :: real) ^ k"
    by (rule power_mono[OF exp_half_bounds(1)]) simp
  have hi: "exp (1 / 2 :: real) ^ k \<le> (164872128 / 100000000) ^ k"
    by (rule power_mono[OF exp_half_bounds(2)]) simp
  have s: "0 < real_of_int scale" by (simp add: scale_def)
  have "real_of_int (lo * (164872127 ^ k + 100000000 ^ k)) \<le>
        real_of_int (scale * (164872127 ^ k - 100000000 ^ k))"
    using assms(1) by (rule of_int_le_iff[THEN iffD2])
  then have "real_of_int lo * (164872127 ^ k + 100000000 ^ k) \<le>
        real_of_int scale * (164872127 ^ k - 100000000 ^ k)" by simp
  then have "real_of_int lo / real_of_int scale \<le>
        (164872127 ^ k - 100000000 ^ k) / (164872127 ^ k + 100000000 ^ k)"
    by (intro frac_le_pos s add_pos_pos) simp_all
  also have "\<dots> = ((164872127 / 100000000) ^ k - 1) / ((164872127 / 100000000) ^ k + 1)"
    by (rule ratio_pow[symmetric]) simp
  also have "\<dots> \<le> (exp (1 / 2 :: real) ^ k - 1) / (exp (1 / 2) ^ k + 1)"
    by (rule ratio_mono[OF _ lo]) simp
  finally have l: "real_of_int lo / real_of_int scale \<le>
        (exp (1 / 2 :: real) ^ k - 1) / (exp (1 / 2) ^ k + 1)" .
  have "real_of_int (scale * (164872128 ^ k - 100000000 ^ k)) \<le>
        real_of_int (hi * (164872128 ^ k + 100000000 ^ k))"
    using assms(2) by (rule of_int_le_iff[THEN iffD2])
  then have "real_of_int scale * (164872128 ^ k - 100000000 ^ k) \<le>
        real_of_int hi * (164872128 ^ k + 100000000 ^ k)" by simp
  then have u: "(164872128 ^ k - 100000000 ^ k) / (164872128 ^ k + 100000000 ^ k) \<le>
        real_of_int hi / real_of_int scale"
    by (intro frac_ge_pos s add_pos_pos) simp_all
  have "(exp (1 / 2 :: real) ^ k - 1) / (exp (1 / 2) ^ k + 1) \<le>
        ((164872128 / 100000000) ^ k - 1) / ((164872128 / 100000000) ^ k + 1)"
    by (rule ratio_mono[OF _ hi]) simp
  also have "\<dots> = (164872128 ^ k - 100000000 ^ k) / (164872128 ^ k + 100000000 ^ k)"
    by (rule ratio_pow) simp
  also note u
  finally have h: "(exp (1 / 2 :: real) ^ k - 1) / (exp (1 / 2) ^ k + 1) \<le>
        real_of_int hi / real_of_int scale" .
  show ?thesis
    using l h by (simp add: inside_def half_tanh_exp e)
qed

lemma inside_tau_cases:
  "inside (tau 0) (tau_bounds ! 0)" "inside (tau 1) (tau_bounds ! 1)"
  "inside (tau 2) (tau_bounds ! 2)" "inside (tau 3) (tau_bounds ! 3)"
  "inside (tau 4) (tau_bounds ! 4)" "inside (tau 5) (tau_bounds ! 5)"
proof -
  have 1: "inside (half_tanh (real 1 / 2)) (244917, 244920)"
    by (rule half_tanh_enclosure) (simp_all add: scale_def)
  have 5: "inside (half_tanh (real 5 / 2)) (848282, 848285)"
    by (rule half_tanh_enclosure) (simp_all add: scale_def)
  have 8: "inside (half_tanh (real 8 / 2)) (964026, 964029)"
    by (rule half_tanh_enclosure) (simp_all add: scale_def)
  have 10: "inside (half_tanh (real 10 / 2)) (986613, 986616)"
    by (rule half_tanh_enclosure) (simp_all add: scale_def)
  have 7: "inside (half_tanh (real 7 / 2)) (941374, 941377)"
    by (rule half_tanh_enclosure) (simp_all add: scale_def)
  show "inside (tau 0) (tau_bounds ! 0)"
    using inside_minus[OF 1] by (simp add: tau_def tau_bounds_def initial_r_def half_tanh_minus of_rat_minus of_rat_divide)
  show "inside (tau 1) (tau_bounds ! 1)"
    using 5 by (simp add: tau_def tau_bounds_def initial_r_def of_rat_divide)
  show "inside (tau 2) (tau_bounds ! 2)"
    using inside_minus[OF 8] by (simp add: tau_def tau_bounds_def initial_r_def half_tanh_minus of_rat_minus of_rat_divide)
  show "inside (tau 3) (tau_bounds ! 3)"
    using 10 by (simp add: tau_def tau_bounds_def initial_r_def)
  show "inside (tau 4) (tau_bounds ! 4)"
    using inside_minus[OF 7]
    by (simp add: tau_def tau_bounds_def initial_r_def half_tanh_minus of_rat_minus of_rat_divide)
  show "inside (tau 5) (tau_bounds ! 5)"
    using 5 by (simp add: tau_def tau_bounds_def initial_r_def of_rat_divide)
qed

lemma inside_tau: "v < 6 \<Longrightarrow> inside (tau v) (tau_bounds ! v)"
  using inside_tau_cases by (auto simp: less_Suc_eq numeral_eq_Suc)

lemma round_0_ok: "round_ok vars_0 checks_0 vars_1"
  by (simp add: round_ok_def edges_eval check_ok_def var_ok_def others_v_eval others_c_eval
      imul_ok_def ioplus_ok_def proper_def scale_def llr_bounds_def Let_def shrink_def slack_def
      bounded_def vars_0_def checks_0_def vars_1_def)

lemma round_1_ok: "round_ok vars_1 checks_1 vars_2"
  by (simp add: round_ok_def edges_eval check_ok_def var_ok_def others_v_eval others_c_eval
      imul_ok_def ioplus_ok_def proper_def scale_def llr_bounds_def Let_def shrink_def slack_def
      bounded_def vars_1_def checks_1_def vars_2_def)

lemma round_2_ok: "round_ok vars_2 checks_2 vars_3"
  by (simp add: round_ok_def edges_eval check_ok_def var_ok_def others_v_eval others_c_eval
      imul_ok_def ioplus_ok_def proper_def scale_def llr_bounds_def Let_def shrink_def slack_def
      bounded_def vars_2_def checks_2_def vars_3_def)

lemma round_3_ok: "round_ok vars_3 checks_3 vars_4"
  by (simp add: round_ok_def edges_eval check_ok_def var_ok_def others_v_eval others_c_eval
      imul_ok_def ioplus_ok_def proper_def scale_def llr_bounds_def Let_def shrink_def slack_def
      bounded_def vars_3_def checks_3_def vars_4_def)

lemma round_4_ok: "round_ok vars_4 checks_4 vars_5"
  by (simp add: round_ok_def edges_eval check_ok_def var_ok_def others_v_eval others_c_eval
      imul_ok_def ioplus_ok_def proper_def scale_def llr_bounds_def Let_def shrink_def slack_def
      bounded_def vars_4_def checks_4_def vars_5_def)

lemma round_5_ok: "round_ok vars_5 checks_5 vars_6"
  by (simp add: round_ok_def edges_eval check_ok_def var_ok_def others_v_eval others_c_eval
      imul_ok_def ioplus_ok_def proper_def scale_def llr_bounds_def Let_def shrink_def slack_def
      bounded_def vars_5_def checks_5_def vars_6_def)

lemma round_6_ok: "round_ok vars_6 checks_6 vars_7"
  by (simp add: round_ok_def edges_eval check_ok_def var_ok_def others_v_eval others_c_eval
      imul_ok_def ioplus_ok_def proper_def scale_def llr_bounds_def Let_def shrink_def slack_def
      bounded_def vars_6_def checks_6_def vars_7_def)

lemma round_7_ok: "last_ok vars_7 checks_7 bel_mid bel_fin"
  by (simp add: last_ok_def edges_eval check_ok_def bel_ok_def others_v_eval checks_of_eval upt_6
      imul_ok_def ioplus_ok_def proper_def scale_def llr_bounds_def Let_def shrink_def slack_def
      bounded_def vars_7_def checks_7_def bel_mid_def bel_fin_def)

lemma inside_shrink:
  assumes "inside x (shrink r)" "\<bar>x' - x\<bar> \<le> 2 / 1000000"
  shows "inside x' r"
proof -
  have "real_of_int (fst r + 2) / 1000000 \<le> x" "x \<le> real_of_int (snd r - 2) / 1000000"
    using assms(1) by (simp_all add: inside_def shrink_def slack_def scale_def)
  then have "real_of_int (fst r) / 1000000 + 2 / 1000000 \<le> x"
    "x \<le> real_of_int (snd r) / 1000000 - 2 / 1000000"
    by (simp_all add: add_divide_distrib diff_divide_distrib)
  with assms(2) have "real_of_int (fst r) / 1000000 \<le> x'" "x' \<le> real_of_int (snd r) / 1000000"
    by argo+
  then show ?thesis by (simp add: inside_def scale_def)
qed

lemma inside_of_shrink: "inside x (shrink r) \<Longrightarrow> inside x r"
  by (erule inside_widen) (simp_all add: shrink_def slack_def)

lemma inside_bounded:
  assumes "inside x i" "bounded i"
  shows "\<bar>x\<bar> \<le> 1 - 6 / 10000"
proof -
  have "real_of_int (- 999400) \<le> real_of_int (fst i)" "real_of_int (snd i) \<le> real_of_int 999400"
    using assms(2) unfolding bounded_def of_int_le_iff by simp_all
  then have "- 999400 / 1000000 \<le> real_of_int (fst i) / 1000000"
    "real_of_int (snd i) / 1000000 \<le> 999400 / 1000000"
    by (simp_all add: divide_right_mono)
  moreover have "real_of_int (fst i) / 1000000 \<le> x" "x \<le> real_of_int (snd i) / 1000000"
    using assms(1) by (simp_all add: inside_def scale_def)
  ultimately show ?thesis by argo
qed

lemma message_magnitude:
  assumes "inside (half_tanh x) i" "bounded i"
  shows "\<bar>x\<bar> \<le> 4000"
proof -
  have "\<bar>x\<bar> \<le> 2 / (6 / 10000)"
    by (rule half_tanh_magnitude[OF inside_bounded[OF assms]]) simp
  then show ?thesis by simp
qed

lemma half_tanh_abs_less: "\<bar>half_tanh x\<bar> < 1"
  using half_tanh_bounds[of x] by (simp add: abs_less_iff)

text \<open>The channel values.\<close>

lemma exp_5: "exp (5 :: real) \<le> 150"
proof -
  have "exp (5 :: real) = exp (real 10 * (1 / 2))" by simp
  also have "\<dots> = exp (1 / 2) ^ 10" by (rule exp_of_nat_mult)
  also have "\<dots> \<le> (164872128 / 100000000) ^ 10"
    by (rule power_mono[OF exp_half_bounds(2)]) simp
  also have "\<dots> = 164872128 ^ 10 / 100000000 ^ 10" by (rule power_divide)
  also have "\<dots> \<le> 150" by simp
  finally show ?thesis .
qed

lemma exp_range:
  fixes r :: real
  assumes "\<bar>r\<bar> \<le> 5"
  shows "1 / 150 \<le> exp r" "exp r \<le> 150"
proof -
  have "exp r \<le> exp 5" using assms by simp
  then show "exp r \<le> 150" by (rule order_trans[OF _ exp_5])
  have "exp (- r) \<le> exp 5" using assms by simp
  then have "exp (- r) \<le> 150" by (rule order_trans[OF _ exp_5])
  then have "1 \<le> 150 * exp r" by (simp add: exp_minus field_simps)
  then show "1 / 150 \<le> exp r" by simp
qed

lemma initial_r_range:
  assumes "v < 6"
  shows "initial_r ! v \<in> set initial_r" "\<bar>real_of_rat (initial_r ! v)\<bar> \<le> 5"
proof -
  have "v < length initial_r" using assms by (simp add: initial_r_def)
  then show "initial_r ! v \<in> set initial_r" by (rule nth_mem)
  have "\<forall>q \<in> set initial_r. \<bar>real_of_rat q\<bar> \<le> 5"
    by (simp add: initial_r_def of_rat_minus of_rat_divide)
  with \<open>initial_r ! v \<in> set initial_r\<close> show "\<bar>real_of_rat (initial_r ! v)\<bar> \<le> 5" by blast
qed

lemma llr_close:
  assumes "accurate A" "v < 6"
  shows "\<bar>llr_main A v - of_rat (initial_r ! v)\<bar> \<le> 1 / 1000000"
  unfolding llr_main_def accurate_lit(4)[OF assms(1) initial_r_range(1)[OF assms(2)]]
  by (rule init_step[OF assms(1) exp_range[OF initial_r_range(2)[OF assms(2)]]])

lemma llr_small:
  assumes "accurate A" "v < 6"
  shows "\<bar>llr_main A v\<bar> \<le> 6"
  using llr_close[OF assms] initial_r_range(2)[OF assms(2)] by argo

lemma tau_bounds_shrink: "v < 6 \<Longrightarrow> tau_bounds ! v = shrink (llr_bounds ! v)"
  by (auto simp: less_Suc_eq numeral_eq_Suc tau_bounds_def llr_bounds_def shrink_def slack_def)

lemma llr_inside:
  assumes "accurate A" "v < 6"
  shows "inside (half_tanh (llr_main A v)) (llr_bounds ! v)"
proof (rule inside_shrink)
  show "inside (tau v) (shrink (llr_bounds ! v))"
    using inside_tau[OF assms(2)] by (simp add: tau_bounds_shrink[OF assms(2)])
  have "\<bar>half_tanh (llr_main A v) - tau v\<bar> \<le> \<bar>llr_main A v - of_rat (initial_r ! v)\<bar> / 2"
    unfolding tau_def by (rule half_tanh_lipschitz)
  with llr_close[OF assms] show "\<bar>half_tanh (llr_main A v) - tau v\<bar> \<le> 2 / 1000000" by argo
qed

text \<open>One round.\<close>

lemma check_ok_sound:
  assumes acc: "accurate A" and e: "encl (var_t A G GI r) I" and r: "r < 8"
    and cv: "(c, v) \<in> set edges" and ok: "check_ok I W c v"
  shows "inside (chk_t A G GI r c v) (W ! c ! v)"
proof -
  from cv have c: "c < 4" and v: "v < 6" by (simp_all add: edges_iff)
  from ok obtain a b where ab: "others_v c v = [a, b]"
    and bd: "bounded (I ! c ! a)" "bounded (I ! c ! b)" "bounded (W ! c ! v)"
    and m: "imul_ok (I ! c ! a) (I ! c ! b) (shrink (W ! c ! v))"
    by (auto simp: check_ok_def split: list.splits)
  have "(c, a) \<in> set edges" "(c, b) \<in> set edges"
    using others_v_mem[of a c v] others_v_mem[of b c v] c by (simp_all add: ab)
  then have i: "inside (var_t A G GI r c a) (I ! c ! a)" "inside (var_t A G GI r c b) (I ! c ! b)"
    using e by (auto simp: encl_def)
  define Va where "Va = message_c_to_v (run_of A G GI ! r) ! c ! a"
  define Vb where "Vb = message_c_to_v (run_of A G GI ! r) ! c ! b"
  have i': "inside (half_tanh Va) (I ! c ! a)" "inside (half_tanh Vb) (I ! c ! b)"
    using i by (simp_all add: var_t_def Va_def Vb_def)
  have mag: "\<bar>Va\<bar> \<le> 4000" "\<bar>Vb\<bar> \<le> 4000"
    by (rule message_magnitude[OF i'(1) bd(1)], rule message_magnitude[OF i'(2) bd(2)])
  have p: "inside (half_tanh Va * half_tanh Vb) (shrink (W ! c ! v))"
    by (rule imul_ok_sound[OF i' m])
  have pb: "\<bar>half_tanh Va * half_tanh Vb\<bar> \<le> 1 - 6 / 10000"
    by (rule inside_bounded[OF inside_of_shrink[OF p] bd(3)])
  have "\<bar>half_tanh (message_v_to_c (run_of A G GI ! r) ! c ! v) - half_tanh Va * half_tanh Vb\<bar>
          \<le> 1 / 1000000"
    unfolding check_message_run[OF r c v ab] Va_def[symmetric] Vb_def[symmetric]
    by (rule check_step[OF acc mag pb])
  then have "\<bar>chk_t A G GI r c v - half_tanh Va * half_tanh Vb\<bar> \<le> 2 / 1000000"
    by (simp add: chk_t_def)
  from inside_shrink[OF p this] show ?thesis .
qed

lemma var_ok_sound:
  assumes acc: "accurate A" and e: "encl (chk_t A G GI r) W" and r: "Suc r < 8"
    and cv: "(c, v) \<in> set edges" and ok: "var_ok W I c v"
  shows "inside (var_t A G GI (Suc r) c v) (I ! c ! v)"
proof -
  from cv have c: "c < 4" and v: "v < 6" by (simp_all add: edges_iff)
  from ok obtain c' where c': "others_c c v = [c']"
    and bd: "bounded (W ! c' ! v)"
    and m: "ioplus_ok (llr_bounds ! v) (W ! c' ! v) (shrink (I ! c ! v))"
    by (auto simp: var_ok_def split: list.splits)
  have "(c', v) \<in> set edges" using others_c_mem[of c' c v] v by (simp add: c')
  then have i: "inside (chk_t A G GI r c' v) (W ! c' ! v)" using e by (auto simp: encl_def)
  define C where "C = message_v_to_c (run_of A G GI ! r) ! c' ! v"
  have i': "inside (half_tanh C) (W ! c' ! v)" using i by (simp add: chk_t_def C_def)
  have mag: "\<bar>C\<bar> \<le> 5000" using message_magnitude[OF i' bd] by simp
  have ls: "\<bar>llr_main A v\<bar> \<le> 5000" using llr_small[OF acc v] by simp
  have p: "inside (oplus (half_tanh (llr_main A v)) (half_tanh C)) (shrink (I ! c ! v))"
    by (rule ioplus_ok_sound[OF half_tanh_abs_less half_tanh_abs_less llr_inside[OF acc v] i' m])
  have "\<bar>half_tanh (d_add A (llr_main A v) C) -
          oplus (half_tanh (llr_main A v)) (half_tanh C)\<bar> \<le> 1 / 100000000"
    by (rule add_step(1)[OF acc ls mag])
  then have "\<bar>var_t A G GI (Suc r) c v - oplus (half_tanh (llr_main A v)) (half_tanh C)\<bar>
               \<le> 2 / 1000000"
    by (simp add: var_t_def variable_message_Suc[OF r c v c'] C_def)
  from inside_shrink[OF p this] show ?thesis .
qed

lemma round_ok_sound:
  assumes "accurate A" "encl (var_t A G GI r) I" "Suc r < 8" "round_ok I W I'"
  shows "encl (var_t A G GI (Suc r)) I'"
proof -
  have r: "r < 8" using assms(3) by simp
  have ok: "check_ok I W c v" "var_ok W I' c v" if "(c, v) \<in> set edges" for c v
    using assms(4) that by (auto simp: round_ok_def list_all_iff)
  have "inside (chk_t A G GI r c v) (W ! c ! v)" if "(c, v) \<in> set edges" for c v
    by (rule check_ok_sound[OF assms(1,2) r that ok(1)[OF that]])
  then have w: "encl (chk_t A G GI r) W" unfolding encl_def by auto
  have "inside (var_t A G GI (Suc r) c v) (I' ! c ! v)" if "(c, v) \<in> set edges" for c v
    by (rule var_ok_sound[OF assms(1) w assms(3) that ok(2)[OF that]])
  then show ?thesis unfolding encl_def by auto
qed

lemma last_ok_sound:
  assumes acc: "accurate A" and e: "encl (var_t A G GI r) I" and r: "r < 8"
    and ok: "last_ok I W Bm B" and v: "v < 6"
  shows "inside (half_tanh (l (run_of A G GI ! r) ! v)) (B ! v)"
proof -
  have "check_ok I W c v" if "(c, v) \<in> set edges" for c v
    using ok that by (auto simp: last_ok_def list_all_iff)
  then have "inside (chk_t A G GI r c v) (W ! c ! v)" if "(c, v) \<in> set edges" for c v
    using check_ok_sound[OF acc e r that] that by simp
  then have w: "encl (chk_t A G GI r) W" unfolding encl_def by auto
  have "bel_ok W Bm B v" using ok v by (auto simp: last_ok_def list_all_iff)
  then obtain c1 c2 where cs: "checks_of v = [c1, c2]"
    and bd: "bounded (W ! c1 ! v)" "bounded (W ! c2 ! v)"
    and m1: "ioplus_ok (llr_bounds ! v) (W ! c1 ! v) (shrink (Bm ! v))"
    and m2: "ioplus_ok (Bm ! v) (W ! c2 ! v) (shrink (B ! v))"
    by (auto simp: bel_ok_def split: list.splits)
  have "(c1, v) \<in> set edges" "(c2, v) \<in> set edges"
    using checks_of_mem[of c1 v] checks_of_mem[of c2 v] v by (simp_all add: cs)
  then have i: "inside (chk_t A G GI r c1 v) (W ! c1 ! v)" "inside (chk_t A G GI r c2 v) (W ! c2 ! v)"
    using w by (auto simp: encl_def)
  define C1 where "C1 = message_v_to_c (run_of A G GI ! r) ! c1 ! v"
  define C2 where "C2 = message_v_to_c (run_of A G GI ! r) ! c2 ! v"
  define M where "M = d_add A (llr_main A v) C1"
  have i': "inside (half_tanh C1) (W ! c1 ! v)" "inside (half_tanh C2) (W ! c2 ! v)"
    using i by (simp_all add: chk_t_def C1_def C2_def)
  have mag: "\<bar>C1\<bar> \<le> 4000" "\<bar>C2\<bar> \<le> 4000"
    by (rule message_magnitude[OF i'(1) bd(1)], rule message_magnitude[OF i'(2) bd(2)])
  have ls: "\<bar>llr_main A v\<bar> \<le> 6" by (rule llr_small[OF acc v])
  have b1: "\<bar>llr_main A v\<bar> \<le> 5000" "\<bar>C1\<bar> \<le> 5000" "\<bar>C2\<bar> \<le> 5000"
    using ls mag by simp_all
  have p1: "inside (oplus (half_tanh (llr_main A v)) (half_tanh C1)) (shrink (Bm ! v))"
    by (rule ioplus_ok_sound[OF half_tanh_abs_less half_tanh_abs_less llr_inside[OF acc v] i'(1) m1])
  have "\<bar>half_tanh M - oplus (half_tanh (llr_main A v)) (half_tanh C1)\<bar> \<le> 1 / 100000000"
    unfolding M_def by (rule add_step(1)[OF acc b1(1,2)])
  then have "\<bar>half_tanh M - oplus (half_tanh (llr_main A v)) (half_tanh C1)\<bar> \<le> 2 / 1000000"
    by simp
  from inside_shrink[OF p1 this] have iM: "inside (half_tanh M) (Bm ! v)" .
  have "\<bar>M\<bar> \<le> \<bar>llr_main A v\<bar> + \<bar>C1\<bar> + 1" unfolding M_def by (rule add_step(2)[OF acc b1(1,2)])
  then have bM: "\<bar>M\<bar> \<le> 5000" using ls mag(1) by simp
  have p2: "inside (oplus (half_tanh M) (half_tanh C2)) (shrink (B ! v))"
    by (rule ioplus_ok_sound[OF half_tanh_abs_less half_tanh_abs_less iM i'(2) m2])
  have "\<bar>half_tanh (d_add A M C2) - oplus (half_tanh M) (half_tanh C2)\<bar> \<le> 1 / 100000000"
    by (rule add_step(1)[OF acc bM b1(3)])
  then have "\<bar>half_tanh (l (run_of A G GI ! r) ! v) - oplus (half_tanh M) (half_tanh C2)\<bar>
               \<le> 2 / 1000000"
    by (simp add: belief_run[OF r v cs] M_def C1_def C2_def)
  from inside_shrink[OF p2 this] show ?thesis .
qed

text \<open>The eight rounds.\<close>

lemma encl_0:
  assumes "accurate A"
  shows "encl (var_t A G GI 0) vars_0"
proof -
  have t: "\<forall>(c, v) \<in> set edges. vars_0 ! c ! v = llr_bounds ! v"
    by (simp add: edges_eval vars_0_def llr_bounds_def)
  have "inside (var_t A G GI 0 c v) (vars_0 ! c ! v)" if e: "(c, v) \<in> set edges" for c v
  proof -
    from e have cv: "c < 4" "v < 6" by (simp_all add: edges_iff)
    from t e have "vars_0 ! c ! v = llr_bounds ! v" by auto
    then show ?thesis
      using llr_inside[OF assms cv(2)] by (simp add: var_t_def variable_message_0[OF cv])
  qed
  then show ?thesis unfolding encl_def by auto
qed

lemma encl_7:
  assumes acc: "accurate A"
  shows "encl (var_t A G GI 7) vars_7"
proof -
  have e1: "encl (var_t A G GI 1) vars_1"
    using round_ok_sound[OF acc encl_0[OF acc] _ round_0_ok, of G GI] by simp
  have e2: "encl (var_t A G GI 2) vars_2"
    using round_ok_sound[OF acc e1 _ round_1_ok] by (simp add: eval_nat_numeral)
  have e3: "encl (var_t A G GI 3) vars_3"
    using round_ok_sound[OF acc e2 _ round_2_ok] by (simp add: eval_nat_numeral)
  have e4: "encl (var_t A G GI 4) vars_4"
    using round_ok_sound[OF acc e3 _ round_3_ok] by (simp add: eval_nat_numeral)
  have e5: "encl (var_t A G GI 5) vars_5"
    using round_ok_sound[OF acc e4 _ round_4_ok] by (simp add: eval_nat_numeral)
  have e6: "encl (var_t A G GI 6) vars_6"
    using round_ok_sound[OF acc e5 _ round_5_ok] by (simp add: eval_nat_numeral)
  show ?thesis
    using round_ok_sound[OF acc e6 _ round_6_ok] by (simp add: eval_nat_numeral)
qed

lemma final_beliefs:
  assumes acc: "accurate A"
  shows "0 < l (run_of A G GI ! 7) ! 0" "0 < l (run_of A G GI ! 7) ! 1"
    "l (run_of A G GI ! 7) ! 2 < 0" "0 < l (run_of A G GI ! 7) ! 3"
    "l (run_of A G GI ! 7) ! 4 < 0" "l (run_of A G GI ! 7) ! 5 < 0"
proof -
  have b: "inside (half_tanh (l (run_of A G GI ! 7) ! v)) (bel_fin ! v)" if "v < 6" for v
    by (rule last_ok_sound[OF acc encl_7[OF acc] _ round_7_ok that]) simp
  have pos: "0 < x" if "0 < half_tanh x" for x
    using that half_tanh_neg_iff[of "- x"] by (simp add: half_tanh_minus)
  have "0 < half_tanh (l (run_of A G GI ! 7) ! 0)"
    using b[of 0] by (simp add: inside_def bel_fin_def scale_def)
  then show "0 < l (run_of A G GI ! 7) ! 0" by (rule pos)
  have "0 < half_tanh (l (run_of A G GI ! 7) ! 1)"
    using b[of 1] by (simp add: inside_def bel_fin_def scale_def)
  then show "0 < l (run_of A G GI ! 7) ! 1" by (rule pos)
  have "half_tanh (l (run_of A G GI ! 7) ! 2) < 0"
    using b[of 2] by (simp add: inside_def bel_fin_def scale_def)
  then show "l (run_of A G GI ! 7) ! 2 < 0" by (simp add: half_tanh_neg_iff)
  have "0 < half_tanh (l (run_of A G GI ! 7) ! 3)"
    using b[of 3] by (simp add: inside_def bel_fin_def scale_def)
  then show "0 < l (run_of A G GI ! 7) ! 3" by (rule pos)
  have "half_tanh (l (run_of A G GI ! 7) ! 4) < 0"
    using b[of 4] by (simp add: inside_def bel_fin_def scale_def)
  then show "l (run_of A G GI ! 7) ! 4 < 0" by (simp add: half_tanh_neg_iff)
  have "half_tanh (l (run_of A G GI ! 7) ! 5) < 0"
    using b[of 5] by (simp add: inside_def bel_fin_def scale_def)
  then show "l (run_of A G GI ! 7) ! 5 < 0" by (simp add: half_tanh_neg_iff)
qed

lemma list6_eqI:
  assumes "length xs = 6" "xs ! 0 = a" "xs ! 1 = b" "xs ! 2 = c" "xs ! 3 = d" "xs ! 4 = e"
    "xs ! 5 = f"
  shows "xs = [a, b, c, d, e, f]"
  using assms by (intro nth_equalityI) (auto simp: less_Suc_eq numeral_eq_Suc)

lemma list4_eqI:
  assumes "length xs = 4" "xs ! 0 = a" "xs ! 1 = b" "xs ! 2 = c" "xs ! 3 = d"
  shows "xs = [a, b, c, d]"
  using assms by (intro nth_equalityI) (auto simp: less_Suc_eq numeral_eq_Suc)

lemma final_codeword:
  assumes acc: "accurate A"
  shows "codeword (run_of A G GI ! 7) = [0, 0, 1, 0, 1, 1]"
proof -
  have ok: "iteration_ok 4 6 (run_of A G GI ! 7)"
    using history(2)[OF new_state_facts(1), of 7 A N_ITERATIONS G GI A]
    by (simp add: new_state_facts run_of_def)
  have cw: "codeword (run_of A G GI ! 7) ! v = (if l (run_of A G GI ! 7) ! v < 0 then 1 else 0)"
    if "v < 6" for v
    using belief_eq(2)[OF new_state_facts(1), of 7 A N_ITERATIONS G GI v A] that
    by (simp add: new_state_facts run_of_def bit_of_def accurate_ops(8)[OF acc]
        accurate_lit(1)[OF acc])
  show ?thesis
  proof (rule list6_eqI)
    show "length (codeword (run_of A G GI ! 7)) = 6" using ok by (simp add: iteration_ok_def)
    show "codeword (run_of A G GI ! 7) ! 0 = 0"
      using final_beliefs(1)[OF acc, of G GI] by (simp add: cw)
    show "codeword (run_of A G GI ! 7) ! 1 = 0"
      using final_beliefs(2)[OF acc, of G GI] by (simp add: cw)
    show "codeword (run_of A G GI ! 7) ! 2 = 1"
      using final_beliefs(3)[OF acc, of G GI] by (simp add: cw)
    show "codeword (run_of A G GI ! 7) ! 3 = 0"
      using final_beliefs(4)[OF acc, of G GI] by (simp add: cw)
    show "codeword (run_of A G GI ! 7) ! 4 = 1"
      using final_beliefs(5)[OF acc, of G GI] by (simp add: cw)
    show "codeword (run_of A G GI ! 7) ! 5 = 1"
      using final_beliefs(6)[OF acc, of G GI] by (simp add: cw)
  qed
qed

lemma syndrome_rows:
  "spec_syndrome matrix_const 6 [0, 0, 1, 0, 1, 1] 0 = 0"
  "spec_syndrome matrix_const 6 [0, 0, 1, 0, 1, 1] 1 = 0"
  "spec_syndrome matrix_const 6 [0, 0, 1, 0, 1, 1] 2 = 0"
  "spec_syndrome matrix_const 6 [0, 0, 1, 0, 1, 1] 3 = 0"
  by (simp_all add: spec_syndrome_def edge_connected_def matrix_const_def upt_6)

lemma final_parity:
  assumes acc: "accurate A"
  shows "parity (run_of A G GI ! 7) = [0, 0, 0, 0]"
proof -
  have ok: "iteration_ok 4 6 (run_of A G GI ! 7)"
    using history(2)[OF new_state_facts(1), of 7 A N_ITERATIONS G GI A]
    by (simp add: new_state_facts run_of_def)
  have p: "parity (run_of A G GI ! 7) ! c = spec_syndrome matrix_const 6 [0, 0, 1, 0, 1, 1] c"
    if "c < 4" for c
    using parity_eq[OF new_state_facts(1), of 7 A N_ITERATIONS G GI c A] that
    by (simp add: new_state_facts run_of_def final_codeword[OF acc, unfolded run_of_def])
  show ?thesis
  proof (rule list4_eqI)
    show "length (parity (run_of A G GI ! 7)) = 4" using ok by (simp add: iteration_ok_def)
    show "parity (run_of A G GI ! 7) ! 0 = 0" using p[of 0] syndrome_rows(1) by simp
    show "parity (run_of A G GI ! 7) ! 1 = 0" using p[of 1] syndrome_rows(2) by simp
    show "parity (run_of A G GI ! 7) ! 2 = 0" using p[of 2] syndrome_rows(3) by simp
    show "parity (run_of A G GI ! 7) ! 3 = 0" using p[of 3] syndrome_rows(4) by simp
  qed
qed

lemma run_last: "last (run_of A G GI) = run_of A G GI ! 7"
proof -
  have "length (run_of A G GI) = 8"
    by (simp add: run_of_def state_solve_frame new_state_facts)
  then show ?thesis by (subst last_conv_nth) auto
qed

section \<open>The claims of the specification\<close>

text \<open>
  \<^bold>\<open>C1.\<close>  For every round \<open>r\<close> and every edge \<open>(c, v)\<close>, the check message stored in
  round \<open>r\<close> (the array \<^verbatim>\<open>message_v_to_c\<close> of the source) is \<open>log ((1 + t) / (1 - t))\<close>
  where \<open>t\<close> is the product, over the variables \<open>v' \<noteq> v\<close> connected to \<open>c\<close>, of
  \<open>tanh (incoming v' / 2)\<close>.  The incoming value is the channel LLR of \<open>v'\<close> in round 0
  and, in a later round, the variable message computed from the check messages of round
  \<open>r - 1\<close>; it is the value held in every slot \<open>(c, v')\<close> of \<^verbatim>\<open>message_c_to_v\<close> of round
  \<open>r\<close>.  The statement holds for every arithmetic \<open>A\<close> and whatever the arrays held
  before the call.
\<close>

theorem C1_check_message:
  fixes A :: "'a double_ops" and s :: "'a state"
  assumes "state_ok s" and "r < length (first_iteration s)"
    and "c < n_c s" and "v < n_v s" and "edge_connected (matrix s) c v"
  defines "out \<equiv> first_iteration (state_solve A s)"
  defines "incoming \<equiv> (\<lambda>v'. if r = 0 then llr_of A s v'
              else spec_variable_message A (matrix s) (n_c s) (llr_of A s)
                     (message_v_to_c (out ! (r - 1))) c v')"
  shows "message_v_to_c (out ! r) ! c ! v =
           spec_check_message A (matrix s) (n_v s) incoming c v \<and>
         (\<forall>v'<n_v s. message_c_to_v (out ! r) ! c ! v' = incoming v')"
proof (intro conjI)
  have inc: "message_c_to_v (out ! r) ! c ! v' = incoming v'" if "v' < n_v s" for v'
    unfolding incoming_def out_def using incoming_eq[OF assms(1,2,3) that, of A] by simp
  then show "\<forall>v'<n_v s. message_c_to_v (out ! r) ! c ! v' = incoming v'" by blast
  show "message_v_to_c (out ! r) ! c ! v =
           spec_check_message A (matrix s) (n_v s) incoming c v"
    unfolding out_def check_message_eq[OF assms(1-4)]
    by (rule spec_check_message_cong) (simp add: inc[unfolded out_def])
qed

theorem C1_check_message_witness:
  "state_ok main_state \<and> edge_connected (matrix main_state) 0 0 \<and>
   message_v_to_c (first_iteration (state_solve real_ops main_state) ! 1) ! 0 ! 0 =
     spec_check_message real_ops (matrix main_state) (n_v main_state)
       (\<lambda>v'. spec_variable_message real_ops (matrix main_state) (n_c main_state)
                (llr_of real_ops main_state)
                (message_v_to_c (first_iteration (state_solve real_ops main_state) ! 0)) 0 v')
       0 0"
proof -
  have h: "state_ok main_state" "1 < length (first_iteration main_state)"
    "0 < n_c main_state" "0 < n_v main_state" "edge_connected (matrix main_state) 0 0"
    by (simp_all add: main_state_facts edge_0_0)
  from C1_check_message[OF h, of real_ops] h(1,5) show ?thesis by simp
qed

text \<open>
  \<^bold>\<open>C2.\<close>  For every round \<open>r\<close> but the last and every edge \<open>(c, v)\<close>, the variable
  message prepared for round \<open>r + 1\<close> is the channel LLR of \<open>v\<close> plus the check messages
  of round \<open>r\<close> from the checks \<open>c' \<noteq> c\<close> connected to \<open>v\<close>.  Overwriting the excluded
  slot \<open>(c, v)\<close> changes neither this sum nor the product of the check message.  The run
  keeps the number of iterations, and the pass over the last iteration is the check pass,
  the parity reset and the belief pass only: it writes no variable message.
\<close>

theorem C2_variable_message:
  fixes A :: "'a double_ops" and s :: "'a state"
  assumes "state_ok s" and "Suc r < length (first_iteration s)"
    and "c < n_c s" and "v < n_v s" and "edge_connected (matrix s) c v"
  defines "s' \<equiv> state_solve A s"
  defines "out \<equiv> first_iteration s'"
  shows "message_c_to_v (out ! Suc r) ! c ! v =
           spec_variable_message A (matrix s) (n_c s) (llr_of A s)
             (message_v_to_c (out ! r)) c v \<and>
         (\<forall>x. calc_message_c_to_v A s'
                ((out ! r)\<lparr>message_v_to_c := upd2 (message_v_to_c (out ! r)) c v x\<rparr>) v c =
              calc_message_c_to_v A s' (out ! r) v c) \<and>
         (\<forall>x. calc_message_v_to_c A s'
                ((out ! r)\<lparr>message_c_to_v := upd2 (message_c_to_v (out ! r)) c v x\<rparr>) v c =
              calc_message_v_to_c A s' (out ! r) v c) \<and>
         length out = length (first_iteration s) \<and>
         solve_loop A s' [last out] =
           [belief_pass A s' (clear_parity s' (check_pass A s' (last out)))] \<and>
         message_c_to_v (belief_pass A s' (clear_parity s' (check_pass A s' (last out)))) =
           message_c_to_v (last out)"
proof (intro conjI allI)
  have fr: "n_c s' = n_c s" "n_v s' = n_v s"
    by (simp_all add: s'_def state_solve_frame)
  have r: "r < length (first_iteration s)" using assms(2) by simp
  have okr: "iteration_ok (n_c s') (n_v s') (out ! r)"
    using history(2)[OF assms(1) r, of A] by (simp add: out_def s'_def fr[unfolded s'_def])
  then have d: "dims2 (n_c s') (n_v s') (message_v_to_c (out ! r))"
    "dims2 (n_c s') (n_v s') (message_c_to_v (out ! r))"
    by (simp_all add: iteration_ok_def)
  have cv: "c < n_c s'" "v < n_v s'" using assms(3,4) by (simp_all add: fr)
  show "calc_message_c_to_v A s'
          ((out ! r)\<lparr>message_v_to_c := upd2 (message_v_to_c (out ! r)) c v x\<rparr>) v c =
        calc_message_c_to_v A s' (out ! r) v c" for x
    by (rule calc_c_to_v_exclusion[OF d(1) cv])
  show "calc_message_v_to_c A s'
          ((out ! r)\<lparr>message_c_to_v := upd2 (message_c_to_v (out ! r)) c v x\<rparr>) v c =
        calc_message_v_to_c A s' (out ! r) v c" for x
    by (rule calc_v_to_c_exclusion[OF d(2) cv])
  show "message_c_to_v (out ! Suc r) ! c ! v =
           spec_variable_message A (matrix s) (n_c s) (llr_of A s)
             (message_v_to_c (out ! r)) c v"
    using incoming_eq[OF assms(1,2,3,4), of A] by (simp add: out_def s'_def)
  have n: "length (first_iteration s) - 1 < length (first_iteration s)" using assms(2) by simp
  show len: "length out = length (first_iteration s)"
    unfolding out_def s'_def by (rule history(1)[OF assms(1) n])
  then have "last out = out ! (length (first_iteration s) - 1)"
    using assms(2) by (subst last_conv_nth) auto
  then have "iteration_ok (n_c s') (n_v s') (last out)"
    using history(2)[OF assms(1) n, of A] by (simp add: out_def s'_def fr[unfolded s'_def])
  then show "message_c_to_v (belief_pass A s' (clear_parity s' (check_pass A s' (last out)))) =
           message_c_to_v (last out)"
    using do_round_fields(1)[of s' "last out" A] by (simp add: do_round_def)
  show "solve_loop A s' [last out] =
          [belief_pass A s' (clear_parity s' (check_pass A s' (last out)))]"
    by (rule solve_loop_single)
qed

theorem C2_variable_message_witness:
  "state_ok main_state \<and> edge_connected (matrix main_state) 0 0 \<and>
   message_c_to_v (first_iteration (state_solve real_ops main_state) ! 1) ! 0 ! 0 =
     spec_variable_message real_ops (matrix main_state) (n_c main_state)
       (llr_of real_ops main_state)
       (message_v_to_c (first_iteration (state_solve real_ops main_state) ! 0)) 0 0"
proof -
  have h: "state_ok main_state" "Suc 0 < length (first_iteration main_state)"
    "0 < n_c main_state" "0 < n_v main_state" "edge_connected (matrix main_state) 0 0"
    by (simp_all add: main_state_facts edge_0_0)
  from C2_variable_message[OF h, of real_ops] h(1,5) show ?thesis by simp
qed

text \<open>
  \<^bold>\<open>C3.\<close>  For every round \<open>r\<close> and variable \<open>v\<close>, the belief \<^verbatim>\<open>l[v]\<close> of round \<open>r\<close> is
  the channel LLR of \<open>v\<close> plus the check messages of round \<open>r\<close> from all checks
  connected to \<open>v\<close>; the codeword bit is 1 if the belief is less than 0 and 0 otherwise,
  so a belief equal to 0 gives bit 0 (in an arithmetic where \<open>0 < 0\<close> is false).
\<close>

theorem C3_belief:
  fixes A :: "'a double_ops" and s :: "'a state"
  assumes "state_ok s" and "r < length (first_iteration s)" and "v < n_v s"
  defines "out \<equiv> first_iteration (state_solve A s)"
  shows "l (out ! r) ! v =
           spec_belief A (matrix s) (n_c s) (llr_of A s) (message_v_to_c (out ! r)) v \<and>
         codeword (out ! r) ! v = (if d_less A (l (out ! r) ! v) (d_lit A 0) then 1 else 0) \<and>
         (\<not> d_less A (d_lit A 0) (d_lit A 0) \<longrightarrow> l (out ! r) ! v = d_lit A 0 \<longrightarrow>
            codeword (out ! r) ! v = 0)"
  unfolding out_def
  using belief_eq[OF assms(1,2,3), of A] by (simp add: bit_of_def)

theorem C3_belief_witness:
  "state_ok main_state \<and>
   l (first_iteration (state_solve real_ops main_state) ! 7) ! 5 =
     spec_belief real_ops (matrix main_state) (n_c main_state) (llr_of real_ops main_state)
       (message_v_to_c (first_iteration (state_solve real_ops main_state) ! 7)) 5 \<and>
   codeword (first_iteration (state_solve real_ops main_state) ! 7) ! 5 =
     (if l (first_iteration (state_solve real_ops main_state) ! 7) ! 5 < 0 then 1 else 0)"
proof -
  have h: "state_ok main_state" "7 < length (first_iteration main_state)" "5 < n_v main_state"
    by (simp_all add: main_state_facts)
  from C3_belief[OF h, of real_ops] h(1) show ?thesis by simp
qed

text \<open>
  \<^bold>\<open>C4.\<close>  For every round \<open>r\<close> and check \<open>c\<close>, the stored \<^verbatim>\<open>parity[c]\<close> is the XOR of
  the codeword bits of the same round over the variables connected to \<open>c\<close>; the flag
  \<^verbatim>\<open>valid\<close> of the display is 1 exactly when every parity entry is 0, that is when
  the codeword satisfies every check.
\<close>

theorem C4_syndrome:
  fixes A :: "'a double_ops" and s :: "'a state"
  assumes "state_ok s" and "r < length (first_iteration s)"
  defines "out \<equiv> first_iteration (state_solve A s)"
  shows "(\<forall>c<n_c s. parity (out ! r) ! c =
            spec_syndrome (matrix s) (n_v s) (codeword (out ! r)) c) \<and>
         (display_valid (state_solve A s) (out ! r) = 1 \<longleftrightarrow>
            (\<forall>c<n_c s. spec_syndrome (matrix s) (n_v s) (codeword (out ! r)) c = 0)) \<and>
         (display_valid (state_solve A s) (out ! r) = 1 \<longleftrightarrow>
            (\<forall>c<n_c s. parity (out ! r) ! c = 0))"
  unfolding out_def
  using parity_eq[OF assms(1,2), of _ A]
  by (simp add: display_valid_iff state_solve_frame)

theorem C4_syndrome_witness:
  "state_ok main_state \<and>
   parity (first_iteration (state_solve real_ops main_state) ! 7) ! 3 =
     spec_syndrome (matrix main_state) (n_v main_state)
       (codeword (first_iteration (state_solve real_ops main_state) ! 7)) 3"
proof -
  have h: "state_ok main_state" "7 < length (first_iteration main_state)"
    by (simp_all add: main_state_facts)
  from C4_syndrome[OF h, of real_ops] h(1) show ?thesis by (simp add: main_state_facts)
qed

text \<open>
  \<^bold>\<open>C5.\<close>  The run of \<^verbatim>\<open>main\<close> in every accurate arithmetic (rounded operations with an
  error of at most \<open>eps * (\<bar>y\<bar> + 1)\<close> on an exact result \<open>y\<close>, which covers IEEE 754
  binary64 with a library accurate to thousands of units in the last place, and exact
  arithmetic), whatever \<^verbatim>\<open>malloc\<close> returned: the matrix is the 4 by 6 matrix of the source,
  the priors are \<^verbatim>\<open>l_to_p\<close> of the LLRs \<open>-0.5, 2.5, -4, 5, -3.5, 2.5\<close>, the history has 8
  rounds, and in the last round the hard decisions are \<open>0 0 1 0 1 1\<close>, all four parities
  are 0 and the display's valid flag is 1.
\<close>

theorem C5_example_converges:
  fixes A :: "real double_ops" and G :: "real garbage" and GI :: "nat \<Rightarrow> real garbage"
  assumes "accurate A"
  defines "s0 \<equiv> state_new A N_ITERATIONS G GI"
  defines "s \<equiv> state_solve A s0"
  shows "matrix s0 = [[1, 1, 0, 1, 0, 0], [0, 1, 1, 0, 1, 0], [1, 0, 0, 0, 1, 1], [0, 0, 1, 1, 0, 1]] \<and>
         channel s0 = map (\<lambda>q. l_to_p A (d_lit A q)) [- (1 / 2), 5 / 2, - 4, 5, - (7 / 2), 5 / 2] \<and>
         length (first_iteration s) = 8 \<and>
         codeword (last (first_iteration s)) = [0, 0, 1, 0, 1, 1] \<and>
         parity (last (first_iteration s)) = [0, 0, 0, 0] \<and>
         display_valid s (last (first_iteration s)) = 1"
proof (intro conjI)
  show "matrix s0 = [[1, 1, 0, 1, 0, 0], [0, 1, 1, 0, 1, 0], [1, 0, 0, 0, 1, 1], [0, 0, 1, 1, 0, 1]]"
    by (simp add: s0_def new_state_facts matrix_const_def)
  show "channel s0 = map (\<lambda>q. l_to_p A (d_lit A q)) [- (1 / 2), 5 / 2, - 4, 5, - (7 / 2), 5 / 2]"
    by (simp add: s0_def state_new_eq initial_r_def upt_6)
  show "length (first_iteration s) = 8"
    by (simp add: s_def s0_def state_solve_frame new_state_facts)
  have r: "first_iteration s = run_of A G GI" by (simp add: s_def s0_def run_of_def)
  show "codeword (last (first_iteration s)) = [0, 0, 1, 0, 1, 1]"
    by (simp add: r run_last final_codeword[OF assms(1)])
  show "parity (last (first_iteration s)) = [0, 0, 0, 0]"
    by (simp add: r run_last final_parity[OF assms(1)])
  have n: "n_c s = 4" by (simp add: s_def s0_def state_solve_frame new_state_facts)
  have z: "([0, 0, 0, 0] :: 8 word list) ! i = 0" if "i < 4" for i
    using that by (auto simp: less_Suc_eq numeral_eq_Suc)
  show "display_valid s (last (first_iteration s)) = 1"
    by (simp add: display_valid_iff r run_last final_parity[OF assms(1)] n z)
qed

theorem C5_example_converges_witness:
  "accurate real_ops \<and>
   parity (last (first_iteration (state_solve real_ops main_state))) = [0, 0, 0, 0] \<and>
   display_valid (state_solve real_ops main_state)
     (last (first_iteration (state_solve real_ops main_state))) = 1"
  using C5_example_converges[OF accurate_real_ops, of zero_garbage "\<lambda>k. zero_garbage"]
    accurate_real_ops
  by (simp add: main_state_def)

text \<open>
  \<^bold>\<open>C6.\<close>  Two states with the same sizes, matrix, channel priors and number of iterations
  give the same history and the same channel LLRs, whatever their arrays held before:
  every message, belief, codeword bit and parity entry of every round is equal.  Calling
  \<^verbatim>\<open>state_solve\<close> a second time on the result changes nothing.
\<close>

theorem C6_deterministic:
  fixes A :: "'a double_ops" and s1 s2 :: "'a state"
  assumes "state_ok s1" "state_ok s2"
    and "n_v s1 = n_v s2" "n_c s1 = n_c s2" "matrix s1 = matrix s2" "channel s1 = channel s2"
    and "length (first_iteration s1) = length (first_iteration s2)"
  shows "first_iteration (state_solve A s1) = first_iteration (state_solve A s2) \<and>
         channel_llr (state_solve A s1) = channel_llr (state_solve A s2) \<and>
         state_solve A (state_solve A s1) = state_solve A s1"
proof (intro conjI)
  show "first_iteration (state_solve A s1) = first_iteration (state_solve A s2)"
    by (rule state_solve_det(1)[OF assms])
  show "channel_llr (state_solve A s1) = channel_llr (state_solve A s2)"
    by (rule state_solve_det(2)[OF assms])
  let ?s = "state_solve A s1"
  have ok: "state_ok ?s" by (rule state_solve_ok[OF assms(1)])
  have same: "n_v ?s = n_v s1" "n_c ?s = n_c s1" "matrix ?s = matrix s1" "channel ?s = channel s1"
    "length (first_iteration ?s) = length (first_iteration s1)"
    by (simp_all add: state_solve_frame)
  show "state_solve A ?s = ?s"
    by (rule state.equality)
       (simp_all add: state_solve_frame state_solve_det[OF ok assms(1) same])
qed

theorem C6_deterministic_witness:
  "state_ok main_state \<and> state_ok main_state' \<and>
   first_iteration (state_solve real_ops main_state) =
     first_iteration (state_solve real_ops main_state') \<and>
   state_solve real_ops (state_solve real_ops main_state) = state_solve real_ops main_state"
proof -
  have h: "state_ok main_state" "state_ok main_state'"
    "n_v main_state = n_v main_state'" "n_c main_state = n_c main_state'"
    "matrix main_state = matrix main_state'" "channel main_state = channel main_state'"
    "length (first_iteration main_state) = length (first_iteration main_state')"
    by (simp_all add: main_state_facts main_state'_facts)
  from C6_deterministic[OF h, of real_ops] h(1,2) show ?thesis by simp
qed

text \<open>
  \<^bold>\<open>C7.\<close>  \<^verbatim>\<open>state_solve\<close> returns (all functions of the model are total) with as many
  iterations as the state had, which is \<open>n_i\<close> for a state built by \<^verbatim>\<open>state_new(n_i)\<close>.
  Every iteration \<open>r\<close> is filled, with no condition on the parities of the earlier ones,
  and in order: its variable messages are the channel LLRs in round 0 and are computed
  from the check messages of round \<open>r - 1\<close> afterwards, its check messages are computed
  from its variable messages, its beliefs and hard decisions from its check messages,
  and its parities from its hard decisions.
\<close>

theorem C7_all_rounds:
  fixes A :: "'a double_ops" and s :: "'a state"
  assumes "state_ok s"
  defines "out \<equiv> first_iteration (state_solve A s)"
  shows "length out = length (first_iteration s) \<and>
         (\<forall>r<length (first_iteration s).
            (\<forall>c<n_c s. \<forall>v<n_v s.
               message_c_to_v (out ! r) ! c ! v =
                 (if r = 0 then llr_of A s v
                  else spec_variable_message A (matrix s) (n_c s) (llr_of A s)
                         (message_v_to_c (out ! (r - 1))) c v) \<and>
               message_v_to_c (out ! r) ! c ! v =
                 spec_check_message A (matrix s) (n_v s)
                   (\<lambda>v'. message_c_to_v (out ! r) ! c ! v') c v) \<and>
            (\<forall>v<n_v s.
               l (out ! r) ! v =
                 spec_belief A (matrix s) (n_c s) (llr_of A s) (message_v_to_c (out ! r)) v \<and>
               codeword (out ! r) ! v =
                 (if d_less A (l (out ! r) ! v) (d_lit A 0) then 1 else 0)) \<and>
            (\<forall>c<n_c s.
               parity (out ! r) ! c =
                 spec_syndrome (matrix s) (n_v s) (codeword (out ! r)) c)) \<and>
         length (first_iteration (state_solve A (state_new A n_i G GI))) = nat n_i \<and>
         iterations (state_solve A (state_new A n_i G GI)) = n_i"
proof (intro conjI allI impI)
  show "length out = length (first_iteration s)"
    by (simp add: out_def state_solve_frame)
  show "length (first_iteration (state_solve A (state_new A n_i G GI))) = nat n_i"
    by (simp add: state_solve_frame state_new_eq)
  show "iterations (state_solve A (state_new A n_i G GI)) = n_i"
    by (simp add: state_solve_frame state_new_eq)
next
  fix r c v assume r: "r < length (first_iteration s)" and c: "c < n_c s" and v: "v < n_v s"
  show "message_c_to_v (out ! r) ! c ! v =
          (if r = 0 then llr_of A s v
           else spec_variable_message A (matrix s) (n_c s) (llr_of A s)
                  (message_v_to_c (out ! (r - 1))) c v)"
    unfolding out_def by (rule incoming_eq[OF assms(1) r c v])
  show "message_v_to_c (out ! r) ! c ! v =
          spec_check_message A (matrix s) (n_v s)
            (\<lambda>v'. message_c_to_v (out ! r) ! c ! v') c v"
    unfolding out_def by (rule check_message_eq[OF assms(1) r c v])
next
  fix r v assume r: "r < length (first_iteration s)" and v: "v < n_v s"
  show "l (out ! r) ! v =
          spec_belief A (matrix s) (n_c s) (llr_of A s) (message_v_to_c (out ! r)) v"
    unfolding out_def by (rule belief_eq(1)[OF assms(1) r v])
  show "codeword (out ! r) ! v = (if d_less A (l (out ! r) ! v) (d_lit A 0) then 1 else 0)"
    unfolding out_def using belief_eq(2)[OF assms(1) r v, of A] by (simp add: bit_of_def)
next
  fix r c assume r: "r < length (first_iteration s)" and c: "c < n_c s"
  show "parity (out ! r) ! c = spec_syndrome (matrix s) (n_v s) (codeword (out ! r)) c"
    unfolding out_def by (rule parity_eq[OF assms(1) r c])
qed

theorem C7_all_rounds_witness:
  "state_ok main_state \<and>
   length (first_iteration (state_solve real_ops main_state)) = 8 \<and>
   message_c_to_v (first_iteration (state_solve real_ops main_state) ! 2) ! 0 ! 0 =
     spec_variable_message real_ops (matrix main_state) (n_c main_state)
       (llr_of real_ops main_state)
       (message_v_to_c (first_iteration (state_solve real_ops main_state) ! 1)) 0 0 \<and>
   message_v_to_c (first_iteration (state_solve real_ops main_state) ! 2) ! 0 ! 0 =
     spec_check_message real_ops (matrix main_state) (n_v main_state)
       (\<lambda>v'. message_c_to_v (first_iteration (state_solve real_ops main_state) ! 2) ! 0 ! v')
       0 0 \<and>
   parity (first_iteration (state_solve real_ops main_state) ! 2) ! 0 =
     spec_syndrome (matrix main_state) (n_v main_state)
       (codeword (first_iteration (state_solve real_ops main_state) ! 2)) 0"
proof -
  have h: "state_ok main_state" by (simp add: main_state_facts)
  from C7_all_rounds[OF h, of real_ops] have
    "\<forall>r<8. (\<forall>c<4. \<forall>v<6.
         message_c_to_v (first_iteration (state_solve real_ops main_state) ! r) ! c ! v =
           (if r = 0 then llr_of real_ops main_state v
            else spec_variable_message real_ops (matrix main_state) (n_c main_state)
                   (llr_of real_ops main_state)
                   (message_v_to_c (first_iteration (state_solve real_ops main_state) ! (r - 1)))
                   c v) \<and>
         message_v_to_c (first_iteration (state_solve real_ops main_state) ! r) ! c ! v =
           spec_check_message real_ops (matrix main_state) (n_v main_state)
             (\<lambda>v'. message_c_to_v (first_iteration (state_solve real_ops main_state) ! r) ! c ! v')
             c v) \<and>
       (\<forall>c<4. parity (first_iteration (state_solve real_ops main_state) ! r) ! c =
           spec_syndrome (matrix main_state) (n_v main_state)
             (codeword (first_iteration (state_solve real_ops main_state) ! r)) c)"
    and len: "length (first_iteration (state_solve real_ops main_state)) = 8"
    by (simp_all add: main_state_facts)
  then have "(\<forall>c<4. \<forall>v<6.
         message_c_to_v (first_iteration (state_solve real_ops main_state) ! 2) ! c ! v =
           (if (2::nat) = 0 then llr_of real_ops main_state v
            else spec_variable_message real_ops (matrix main_state) (n_c main_state)
                   (llr_of real_ops main_state)
                   (message_v_to_c (first_iteration (state_solve real_ops main_state) ! (2 - 1)))
                   c v) \<and>
         message_v_to_c (first_iteration (state_solve real_ops main_state) ! 2) ! c ! v =
           spec_check_message real_ops (matrix main_state) (n_v main_state)
             (\<lambda>v'. message_c_to_v (first_iteration (state_solve real_ops main_state) ! 2) ! c ! v')
             c v) \<and>
       (\<forall>c<4. parity (first_iteration (state_solve real_ops main_state) ! 2) ! c =
           spec_syndrome (matrix main_state) (n_v main_state)
             (codeword (first_iteration (state_solve real_ops main_state) ! 2)) c)"
    by (elim allE[where x = 2]) simp
  then show ?thesis using h len by simp
qed

text \<open>
  \<^bold>\<open>C8.\<close>  In IEEE 754 binary64 arithmetic the key that raises the prior (\<^verbatim>\<open>KEY_DOWN\<close> in
  the source) leaves the prior 0.58 as it is, although 0.58 is below the bound 0.99: the
  double nearest to 0.58 lies below 0.58, its product with 100 rounds to a double below
  58, \<^verbatim>\<open>floor\<close> gives 57, and \<open>0.57 + 0.01\<close> rounds to the double nearest to 0.58 again.
  The state is reached from the prior 0.567 by pressing the key twice.  The results do
  not depend on what \<^verbatim>\<open>exp\<close>, \<^verbatim>\<open>log\<close> and \<^verbatim>\<open>tanh\<close> return.  In exact arithmetic the
  operation is the one described, see \<open>nudge_exact\<close>.
\<close>

theorem C8_binary64_stuck:
  "nudge_KEY_DOWN (binary64_ops E L T) (binary64 (58 / 100)) = binary64 (58 / 100) \<and>
   binary64 (58 / 100) < binary64 (99 / 100) \<and>
   nudge_KEY_DOWN (binary64_ops E L T)
     (nudge_KEY_DOWN (binary64_ops E L T) (binary64 (567 / 1000))) = binary64 (58 / 100) \<and>
   channel (snd (process_keys (binary64_ops E L T) KEY_DOWN s)) =
     (channel s)[nat (cursor s) :=
        nudge_KEY_DOWN (binary64_ops E L T) (channel s ! nat (cursor s))]"
proof (intro conjI)
  show "nudge_KEY_DOWN (binary64_ops E L T) (binary64 (58 / 100)) = binary64 (58 / 100)"
    by (simp only: nudge_KEY_DOWN_binary64 nudge_up64_058)
  show "binary64 (58 / 100) < binary64 (99 / 100)" by code_simp
  show "nudge_KEY_DOWN (binary64_ops E L T)
          (nudge_KEY_DOWN (binary64_ops E L T) (binary64 (567 / 1000))) = binary64 (58 / 100)"
    by (simp only: nudge_KEY_DOWN_binary64 nudge_up64_0567(2))
  show "channel (snd (process_keys (binary64_ops E L T) KEY_DOWN s)) =
          (channel s)[nat (cursor s) :=
             nudge_KEY_DOWN (binary64_ops E L T) (channel s ! nat (cursor s))]"
    by (simp add: state_solve_frame)
qed

text \<open>
  \<^bold>\<open>C9.\<close>  \<^verbatim>\<open>state_solve\<close> changes only \<^verbatim>\<open>channel_llr\<close> and the iterations: the priors
  \<^verbatim>\<open>channel\<close>, the matrix and every other field are as before.  No key changes the
  matrix, and only \<^verbatim>\<open>KEY_UP\<close> and \<^verbatim>\<open>KEY_DOWN\<close> change a prior, the one under the cursor.
\<close>

theorem C9_frame:
  "state_solve A s =
     s\<lparr>channel_llr := channel_llr (state_solve A s),
       first_iteration := first_iteration (state_solve A s)\<rparr> \<and>
   channel (state_solve A s) = channel s \<and> matrix (state_solve A s) = matrix s \<and>
   matrix (snd (process_keys A k s)) = matrix s \<and>
   (k \<noteq> KEY_UP \<and> k \<noteq> KEY_DOWN \<longrightarrow> channel (snd (process_keys A k s)) = channel s) \<and>
   channel (snd (process_keys A KEY_UP s)) =
     (channel s)[nat (cursor s) := nudge_KEY_UP A (channel s ! nat (cursor s))] \<and>
   channel (snd (process_keys A KEY_DOWN s)) =
     (channel s)[nat (cursor s) := nudge_KEY_DOWN A (channel s ! nat (cursor s))]"
proof (intro conjI)
  show "state_solve A s =
     s\<lparr>channel_llr := channel_llr (state_solve A s),
       first_iteration := first_iteration (state_solve A s)\<rparr>"
    by (rule state.equality) (simp_all add: state_solve_frame)
  show "channel (state_solve A s) = channel s" "matrix (state_solve A s) = matrix s"
    by (simp_all add: state_solve_frame)
  show "matrix (snd (process_keys A k s)) = matrix s"
    by (cases k) (simp_all add: state_solve_frame)
  show "k \<noteq> KEY_UP \<and> k \<noteq> KEY_DOWN \<longrightarrow> channel (snd (process_keys A k s)) = channel s"
    by (cases k) simp_all
  show "channel (snd (process_keys A KEY_UP s)) =
     (channel s)[nat (cursor s) := nudge_KEY_UP A (channel s ! nat (cursor s))]"
    by (simp add: state_solve_frame)
  show "channel (snd (process_keys A KEY_DOWN s)) =
     (channel s)[nat (cursor s) := nudge_KEY_DOWN A (channel s ! nat (cursor s))]"
    by (simp add: state_solve_frame)
qed

theorem C9_frame_witness:
  "KEY_LEFT \<noteq> KEY_UP \<and> KEY_LEFT \<noteq> KEY_DOWN \<and>
   channel (snd (process_keys real_ops KEY_LEFT main_state)) = channel main_state \<and>
   channel (state_solve real_ops main_state) = channel main_state"
proof -
  from C9_frame[of real_ops main_state KEY_LEFT] show ?thesis by blast
qed

text \<open>
  \<^bold>\<open>C10.\<close>  Replacing, at the start of a round, the variable messages of that round by an
  array that agrees with it wherever the matrix is not 0, or replacing the check messages
  just computed by such an array, changes no belief, codeword bit or parity entry of this
  or any later round, and no message on an edge.
\<close>

theorem C10_non_edge_slots:
  fixes A :: "'a double_ops" and s :: "'a state"
  assumes "iteration_ok (n_c s) (n_v s) cur" and "\<forall>it \<in> set rest. iteration_ok (n_c s) (n_v s) it"
    and "dims2 (n_c s) (n_v s) m" and "edge_eq s m (message_c_to_v cur)"
    and "dims2 (n_c s) (n_v s) m'" and "edge_eq s m' (message_v_to_c cur)"
  shows "list_all2 (same_results s)
           (solve_loop A s (cur\<lparr>message_c_to_v := m\<rparr> # rest)) (solve_loop A s (cur # rest)) \<and>
         list_all2 (same_results s)
           (round_tail A s (cur\<lparr>message_v_to_c := m'\<rparr>) rest) (round_tail A s cur rest)"
proof (intro conjI)
  let ?x = "cur\<lparr>message_c_to_v := m\<rparr>"
  have okx: "iteration_ok (n_c s) (n_v s) ?x"
    using assms(1,3) by (simp add: iteration_ok_def)
  have cm: "check_messages A s ?x = check_messages A s cur"
    by (rule check_messages_edge) (simp add: assms(4))
  have "same_results s (do_round A s ?x) (do_round A s cur)"
    using assms(4)
    by (simp add: same_results_def do_round_fields[OF okx] do_round_fields[OF assms(1)] cm)
       (simp add: edge_eq_def)
  from perturbed_tail[OF assms(2) this, of A]
  show "list_all2 (same_results s) (solve_loop A s (?x # rest)) (solve_loop A s (cur # rest))"
    by (simp add: solve_loop_Cons)
next
  let ?y = "cur\<lparr>message_v_to_c := m'\<rparr>"
  have oky: "iteration_ok (n_c s) (n_v s) ?y"
    using assms(1,5) by (simp add: iteration_ok_def)
  have bel: "map (belief_of A s m') [0..<n_v s] = map (belief_of A s (message_v_to_c cur)) [0..<n_v s]"
    by (rule map_cong) (simp_all add: belief_of_edge[OF assms(6)])
  have bit: "map (\<lambda>v. bit_of A (belief_of A s m' v)) [0..<n_v s] =
             map (\<lambda>v. bit_of A (belief_of A s (message_v_to_c cur) v)) [0..<n_v s]"
    by (rule map_cong) (simp_all add: belief_of_edge[OF assms(6)])
  have par: "map (\<lambda>i. parity_of s (\<lambda>v. bit_of A (belief_of A s m' v)) (n_v s) i 0) [0..<n_c s] =
             map (\<lambda>i. parity_of s (\<lambda>v. bit_of A (belief_of A s (message_v_to_c cur) v)) (n_v s) i 0)
               [0..<n_c s]"
    by (intro map_cong refl parity_of_cong) (simp add: belief_of_edge[OF assms(6)])
  have "same_results s (belief_pass A s (clear_parity s ?y)) (belief_pass A s (clear_parity s cur))"
    unfolding finish_eq[OF oky] finish_eq[OF assms(1)]
    using assms(6) by (simp add: same_results_def bel bit par) (simp add: edge_eq_def)
  from perturbed_tail[OF assms(2) this, of A]
  show "list_all2 (same_results s) (round_tail A s ?y rest) (round_tail A s cur rest)"
    by (simp add: round_tail_eq)
qed

theorem C10_non_edge_slots_witness:
  "matrix main_state ! 0 ! 2 = 0 \<and>
   list_all2 (same_results main_state)
     (solve_loop real_ops main_state
        ((hd (first_iteration main_state))
           \<lparr>message_c_to_v := upd2 (message_c_to_v (hd (first_iteration main_state))) 0 2 42\<rparr>
         # tl (first_iteration main_state)))
     (solve_loop real_ops main_state (hd (first_iteration main_state) # tl (first_iteration main_state))) \<and>
   list_all2 (same_results main_state)
     (round_tail real_ops main_state
        ((hd (first_iteration main_state))
           \<lparr>message_v_to_c := upd2 (message_v_to_c (hd (first_iteration main_state))) 0 2 42\<rparr>)
        (tl (first_iteration main_state)))
     (round_tail real_ops main_state (hd (first_iteration main_state)) (tl (first_iteration main_state)))"
proof -
  let ?cur = "hd (first_iteration main_state)"
  let ?rest = "tl (first_iteration main_state)"
  have ne: "first_iteration main_state \<noteq> []"
    using main_state_facts(5) by auto
  have z: "matrix main_state ! 0 ! 2 = 0"
    by (simp add: main_state_facts matrix_const_def)
  have all: "\<forall>it \<in> set (first_iteration main_state). iteration_ok (n_c main_state) (n_v main_state) it"
    using main_state_facts(1) by (simp add: state_ok_def)
  have cur: "iteration_ok (n_c main_state) (n_v main_state) ?cur"
    using all ne by simp
  have rest: "\<forall>it \<in> set ?rest. iteration_ok (n_c main_state) (n_v main_state) it"
    using all ne by (metis list.set_sel(2))
  from cur have d: "dims2 (n_c main_state) (n_v main_state) (message_c_to_v ?cur)"
    "dims2 (n_c main_state) (n_v main_state) (message_v_to_c ?cur)"
    by (simp_all add: iteration_ok_def)
  have e1: "edge_eq main_state (upd2 (message_c_to_v ?cur) 0 2 42) (message_c_to_v ?cur)"
    unfolding edge_eq_def using z by (auto simp: nth_upd2[OF d(1)] main_state_facts)
  have e2: "edge_eq main_state (upd2 (message_v_to_c ?cur) 0 2 42) (message_v_to_c ?cur)"
    unfolding edge_eq_def using z by (auto simp: nth_upd2[OF d(2)] main_state_facts)
  from C10_non_edge_slots[OF cur rest dims2_upd2[OF d(1)] e1 dims2_upd2[OF d(2)] e2, of real_ops] z
  show ?thesis by simp
qed

end
